theory Spec2Isabelle
  imports Main "HOL-Library.Word" "HOL-Library.Multiset"
begin

unbundle bit_operations_syntax

section \<open>Undefined accesses\<close>

text \<open>
  An access outside an array, or through a null pointer, is undefined behaviour in C.
  Where the code does not exclude it, the model returns a fault instead of a value, and
  a computation stops at its first fault.
\<close>

datatype fault = NullDereference | IndexOutOfRange

definition bind_fault :: "fault + 'a \<Rightarrow> ('a \<Rightarrow> fault + 'b) \<Rightarrow> fault + 'b" where
  "bind_fault r f = (case r of Inl e \<Rightarrow> Inl e | Inr x \<Rightarrow> f x)"

section \<open>Fibonacci kernel\<close>

text \<open>
  \<^verbatim>\<open>fibonacci_baseline.c\<close>: the naive double recursion
  \<^verbatim>\<open>if (n <= 1) return n; return fibonacci(n - 1) + fibonacci(n - 2);\<close>
  The argument is a C \<^verbatim>\<open>int\<close> and the result a \<^verbatim>\<open>long long\<close>; both are
  modelled as \<open>int\<close>, which is exact as long as the result fits 64 bits
  (every \<open>n \<le> 92\<close>).
\<close>

function fibonacci_baseline :: "int \<Rightarrow> int" where
  "fibonacci_baseline n =
     (if n \<le> 1 then n else fibonacci_baseline (n - 1) + fibonacci_baseline (n - 2))"
  by pat_completeness auto
termination
  by (relation "measure nat") auto

declare fibonacci_baseline.simps [simp del]

text \<open>
  \<^verbatim>\<open>fibonacci_optimized.c\<close>: the rolling pair. \<open>fibonacci_loop\<close> is the
  \<^verbatim>\<open>for (int i = 2; i <= n; i++) { c = a + b; a = b; b = c; }\<close> loop with the
  loop variables as arguments; it returns \<open>b\<close> at exit.
\<close>

function fibonacci_loop :: "int \<Rightarrow> int \<Rightarrow> int \<Rightarrow> int \<Rightarrow> int" where
  "fibonacci_loop i n a b =
     (if i \<le> n then fibonacci_loop (i + 1) n b (a + b) else b)"
  by pat_completeness auto
termination
  by (relation "measure (\<lambda>(i, n, a, b). nat (n + 1 - i))") auto

declare fibonacci_loop.simps [simp del]

definition fibonacci_optimized :: "int \<Rightarrow> int" where
  "fibonacci_optimized n = (if n \<le> 1 then n else fibonacci_loop 2 n 0 1)"

text \<open>
  The driver of both files: \<^verbatim>\<open>for (int i = 0; i < 40; i++) sum += fibonacci(i);\<close>
  with the loop bound taken as a parameter (\<open>40\<close> in the source); \<open>acc\<close> is
  the source's \<^verbatim>\<open>sum\<close>.
\<close>

function fibonacci_sum_loop :: "(int \<Rightarrow> int) \<Rightarrow> int \<Rightarrow> int \<Rightarrow> int \<Rightarrow> int" where
  "fibonacci_sum_loop f i bound acc =
     (if i < bound then fibonacci_sum_loop f (i + 1) bound (acc + f i) else acc)"
  by pat_completeness auto
termination
  by (relation "measure (\<lambda>(f, i, bound, acc). nat (bound - i))") auto

declare fibonacci_sum_loop.simps [simp del]

definition fibonacci_baseline_main :: "int \<Rightarrow> int" where
  "fibonacci_baseline_main bound = fibonacci_sum_loop fibonacci_baseline 0 bound 0"

definition fibonacci_optimized_main :: "int \<Rightarrow> int" where
  "fibonacci_optimized_main bound = fibonacci_sum_loop fibonacci_optimized 0 bound 0"

section \<open>Substring search kernel\<close>

text \<open>
  A C string is modelled by its bytes before the terminating NUL, so that
  \<^verbatim>\<open>strlen\<close> is \<open>length\<close>. Lengths, indices and counts are C \<^verbatim>\<open>int\<close>s,
  modelled as \<open>int\<close>: \<open>n - m\<close> may be negative, and nothing overflows as long as
  the text is shorter than \<open>2 ^ 31\<close> bytes. The counter \<^verbatim>\<open>count\<close> of the source
  is \<open>cnt\<close> here.
\<close>

subsection \<open>\<^verbatim>\<open>string-search_baseline.c\<close>\<close>

text \<open>
  The inner loop \<^verbatim>\<open>for (j = 0; j < m; j++) if (text[i + j] != pattern[j]) break;\<close>
  returns the value of \<open>j\<close> at its exit.
\<close>

function naive_inner :: "string \<Rightarrow> string \<Rightarrow> int \<Rightarrow> int \<Rightarrow> int \<Rightarrow> int" where
  "naive_inner text pattern m i j =
     (if j < m then
        (if text ! nat (i + j) \<noteq> pattern ! nat j then j
         else naive_inner text pattern m i (j + 1))
      else j)"
  by pat_completeness auto
termination
  by (relation "measure (\<lambda>(text, pattern, m, i, j). nat (m - j))") auto

declare naive_inner.simps [simp del]

text \<open>The outer loop \<^verbatim>\<open>for (int i = 0; i <= n - m; i++) { ...; if (j == m) count++; }\<close>.\<close>

function naive_outer :: "string \<Rightarrow> string \<Rightarrow> int \<Rightarrow> int \<Rightarrow> int \<Rightarrow> int \<Rightarrow> int" where
  "naive_outer text pattern n m i cnt =
     (if i \<le> n - m then
        naive_outer text pattern n m (i + 1)
          (if naive_inner text pattern m i 0 = m then cnt + 1 else cnt)
      else cnt)"
  by pat_completeness auto
termination
  by (relation "measure (\<lambda>(text, pattern, n, m, i, cnt). nat (n - m + 1 - i))") auto

declare naive_outer.simps [simp del]

definition naive_search :: "string \<Rightarrow> string \<Rightarrow> int" where
  "naive_search text pattern =
     (let n = int (length text); m = int (length pattern)
      in naive_outer text pattern n m 0 0)"

subsection \<open>\<^verbatim>\<open>string-search_optimized.c\<close>\<close>

text \<open>
  The shift table \<^verbatim>\<open>int bad_char[256]\<close> is a list of 256 entries, indexed by the
  byte value \<^verbatim>\<open>(unsigned char)c\<close>, here \<open>of_char c\<close>. The first loop sets every
  entry to \<open>m\<close>; \<open>bad_char_fill\<close> is the second loop,
  \<^verbatim>\<open>for (int i = 0; i < m - 1; i++) bad_char[(unsigned char)pattern[i]] = m - 1 - i;\<close>
\<close>

definition bad_char_init :: "int \<Rightarrow> int list" where
  "bad_char_init m = replicate 256 m"

function bad_char_fill :: "string \<Rightarrow> int \<Rightarrow> int \<Rightarrow> int list \<Rightarrow> int list" where
  "bad_char_fill pattern m i bad_char =
     (if i < m - 1 then
        bad_char_fill pattern m (i + 1) (bad_char[of_char (pattern ! nat i) := m - 1 - i])
      else bad_char)"
  by pat_completeness auto
termination
  by (relation "measure (\<lambda>(pattern, m, i, bad_char). nat (m - 1 - i))") auto

declare bad_char_fill.simps [simp del]

text \<open>
  The SSE2 operations of the fast path. A 128-bit vector is a list of 16 byte lanes, lane 0
  first. \<open>mm_loadu_si128 mem i\<close> reads the 16 bytes of the buffer \<open>mem\<close> from offset
  \<open>i\<close>; a load that does not lie inside the buffer is a fault. \<open>mm_cmpeq_epi8\<close>
  sets a lane to \<open>0xFF\<close> where the two bytes are equal and to \<open>0\<close> elsewhere;
  \<open>mm_movemask_epi8\<close> collects the top bit of each lane, lane \<open>k\<close> into bit \<open>k\<close>.
\<close>

definition mm_loadu_si128 :: "string \<Rightarrow> int \<Rightarrow> fault + string" where
  "mm_loadu_si128 mem i =
     (if 0 \<le> i \<and> i + 16 \<le> int (length mem) then Inr (take 16 (drop (nat i) mem))
      else Inl IndexOutOfRange)"

definition mm_cmpeq_epi8 :: "string \<Rightarrow> string \<Rightarrow> 8 word list" where
  "mm_cmpeq_epi8 a b = map2 (\<lambda>x y. if x = y then 0xFF else 0x00) a b"

definition mm_movemask_epi8 :: "8 word list \<Rightarrow> int" where
  "mm_movemask_epi8 v = horner_sum of_bool 2 (map (\<lambda>b. bit b 7) v)"

text \<open>
  The loop of the fast path (\<open>m \<le> 16\<close>). \<open>text_mem\<close> is the buffer that holds the
  text: its bytes, the terminator and the bytes of the same buffer that follow it, if
  any. The load at \<^verbatim>\<open>text + i\<close> is the first access of each round, so the loop stops
  with a fault at the first round whose 16 bytes do not lie inside the buffer. The vector
  \<^verbatim>\<open>mask\<close> of the source is computed and never used; it is left out.
  The shift is read from the table, so whether the loop ends depends on the table: the
  result is \<open>None\<close> if it does not.
\<close>

partial_function (option) simd_loop ::
  "string \<Rightarrow> string \<Rightarrow> int list \<Rightarrow> int \<Rightarrow> int \<Rightarrow> int \<Rightarrow> int \<Rightarrow> (fault + int) option" where
  "simd_loop text_mem pattern_vec bad_char n m i cnt =
     (if i \<le> n - m then
        (case mm_loadu_si128 text_mem i of
           Inl f \<Rightarrow> Some (Inl f)
         | Inr text_vec \<Rightarrow>
             (let cmp = mm_cmpeq_epi8 text_vec pattern_vec;
                  mask_res = mm_movemask_epi8 cmp
              in if mask_res AND (push_bit (nat m) 1 - 1) = push_bit (nat m) 1 - 1 then
                   simd_loop text_mem pattern_vec bad_char n m (i + 1) (cnt + 1)
                 else
                   (let last_char = text_mem ! nat (i + m - 1)
                    in simd_loop text_mem pattern_vec bad_char n m
                         (i + bad_char ! of_char last_char) cnt)))
      else Some (Inr cnt))"

declare simd_loop.simps [code]

text \<open>
  The scalar path (\<open>m > 16\<close>): \<open>bmh_inner\<close> is
  \<^verbatim>\<open>while (j >= 0 && pattern[j] == text[i + j]) j--;\<close> and returns \<open>j\<close> at exit.
\<close>

function bmh_inner :: "string \<Rightarrow> string \<Rightarrow> int \<Rightarrow> int \<Rightarrow> int" where
  "bmh_inner text pattern i j =
     (if j \<ge> 0 \<and> pattern ! nat j = text ! nat (i + j) then bmh_inner text pattern i (j - 1)
      else j)"
  by pat_completeness auto
termination
  by (relation "measure (\<lambda>(text, pattern, i, j). nat (j + 1))") auto

declare bmh_inner.simps [simp del]

partial_function (option) bmh_loop ::
  "string \<Rightarrow> string \<Rightarrow> int list \<Rightarrow> int \<Rightarrow> int \<Rightarrow> int \<Rightarrow> int \<Rightarrow> int option" where
  "bmh_loop text pattern bad_char n m i cnt =
     (if i \<le> n - m then
        (let j = bmh_inner text pattern i (m - 1)
         in if j < 0 then bmh_loop text pattern bad_char n m (i + 1) (cnt + 1)
            else
              (let last_char = text ! nat (i + m - 1)
               in bmh_loop text pattern bad_char n m (i + bad_char ! of_char last_char) cnt))
      else Some cnt)"

declare bmh_loop.simps [code]

text \<open>
  \<open>optimized_search\<close>. A string is passed as a pointer to its first byte; the buffer it
  lies in holds its bytes, the terminator and possibly more: \<open>text_tail\<close> and
  \<open>pattern_tail\<close> are the bytes of each buffer behind the terminator (none when the
  buffer ends with the terminator, as a string literal and the driver's
  \<^verbatim>\<open>malloc(TEXT_LEN + 1)\<close> do). Only the 16-byte loads can reach them. The scalar
  path makes no such load and has no fault. The result is \<open>None\<close> if a loop does not
  end, a fault if a load leaves its buffer, and the count otherwise.
\<close>

definition optimized_search ::
  "string \<Rightarrow> string \<Rightarrow> string \<Rightarrow> string \<Rightarrow> (fault + int) option" where
  "optimized_search text pattern text_tail pattern_tail =
     (let n = int (length text); m = int (length pattern)
      in if m = 0 \<or> n < m then Some (Inr 0)
         else
           (let bad_char = bad_char_fill pattern m 0 (bad_char_init m)
            in if m \<le> 16 then
                 (case mm_loadu_si128 (pattern @ CHR 0x00 # pattern_tail) 0 of
                    Inl f \<Rightarrow> Some (Inl f)
                  | Inr pattern_vec \<Rightarrow>
                      simd_loop (text @ CHR 0x00 # text_tail) pattern_vec bad_char n m 0 0)
               else map_option Inr (bmh_loop text pattern bad_char n m 0 0)))"

subsection \<open>Specification of the match count\<close>




section \<open>Deterministic input generator\<close>

text \<open>
  The seed is an \<^verbatim>\<open>unsigned int\<close>, a 32-bit word whose arithmetic wraps:
  \<^verbatim>\<open>seed = seed * 1103515245 + 12345;\<close>. The sort kernel takes
  \<^verbatim>\<open>(seed >> 16) & 0x7fff\<close> as the next element; the value is converted to \<^verbatim>\<open>int\<close>
  when it is stored.
\<close>

type_synonym u32 = "32 word"

definition lcg_next :: "u32 \<Rightarrow> u32" where
  "lcg_next seed = seed * 1103515245 + 12345"

definition lcg_value :: "u32 \<Rightarrow> int" where
  "lcg_value seed = uint (drop_bit 16 seed AND 0x7fff)"

text \<open>
  \<^verbatim>\<open>bubble-sort_baseline.c\<close>, the fill loop of \<^verbatim>\<open>main\<close>:
  \<^verbatim>\<open>for (int i = 0; i < N; i++) { seed = ...; arr[i] = (seed >> 16) & 0x7fff; }\<close>
  It returns the array and the seed. The buffer \<open>arr\<close> has \<open>N\<close> elements, so each
  store is in range.
\<close>

function fill_baseline :: "int list \<Rightarrow> int \<Rightarrow> int \<Rightarrow> u32 \<Rightarrow> int list \<times> u32" where
  "fill_baseline arr n i seed =
     (if i < n then
        (let seed = lcg_next seed
         in fill_baseline (arr[nat i := lcg_value seed]) n (i + 1) seed)
      else (arr, seed))"
  by pat_completeness auto
termination
  by (relation "measure (\<lambda>(arr, n, i, seed). nat (n - i))") auto

declare fill_baseline.simps [simp del]

text \<open>
  \<^verbatim>\<open>bubble-sort_optimized.c\<close>, the fill loop of \<^verbatim>\<open>main\<close>, unrolled by four:
  \<^verbatim>\<open>for (int i = 0; i < N; i += 4)\<close> with the second to fourth store guarded by
  \<^verbatim>\<open>if (i + k < N)\<close>.
\<close>

definition fill_step :: "int \<Rightarrow> int \<Rightarrow> int list \<times> u32 \<Rightarrow> int list \<times> u32" where
  "fill_step n k st =
     (if k < n then
        (let seed = lcg_next (snd st) in ((fst st)[nat k := lcg_value seed], seed))
      else st)"

function fill_unrolled :: "int list \<Rightarrow> int \<Rightarrow> int \<Rightarrow> u32 \<Rightarrow> int list \<times> u32" where
  "fill_unrolled arr n i seed =
     (if i < n then
        (let seed = lcg_next seed;
             arr = arr[nat i := lcg_value seed];
             st = fill_step n (i + 1) (arr, seed);
             st = fill_step n (i + 2) st;
             st = fill_step n (i + 3) st
         in fill_unrolled (fst st) n (i + 4) (snd st))
      else (arr, seed))"
  by pat_completeness auto
termination
  by (relation "measure (\<lambda>(arr, n, i, seed). nat (n - i))") auto

declare fill_unrolled.simps [simp del]

section \<open>Sort kernel\<close>

text \<open>
  Array elements are C \<^verbatim>\<open>int\<close>s, modelled as \<open>int\<close>; an array is the list of its
  elements. A store outside the array is a fault.
\<close>

definition store :: "int list \<Rightarrow> int \<Rightarrow> int \<Rightarrow> fault + int list" where
  "store arr i v =
     (if 0 \<le> i \<and> i < int (length arr) then Inr (arr[nat i := v]) else Inl IndexOutOfRange)"

subsection \<open>\<^verbatim>\<open>bubble-sort_baseline.c\<close>\<close>

text \<open>
  \<open>bubble_inner\<close> is \<^verbatim>\<open>for (int j = 0; j < n - i - 1; j++)\<close> with the
  compare-and-swap of \<open>arr[j]\<close> and \<open>arr[j + 1]\<close>; \<open>bubble_outer\<close> is
  \<^verbatim>\<open>for (int i = 0; i < n - 1; i++)\<close>. The caller passes the length of the array as
  \<open>n\<close>, so \<open>j + 1 < n\<close> keeps both indices in range.
\<close>

function bubble_inner :: "int list \<Rightarrow> int \<Rightarrow> int \<Rightarrow> int \<Rightarrow> int list" where
  "bubble_inner arr n i j =
     (if j < n - i - 1 then
        bubble_inner
          (if arr ! nat j > arr ! nat (j + 1) then
             (let temp = arr ! nat j;
                  arr = arr[nat j := arr ! nat (j + 1)]
              in arr[nat (j + 1) := temp])
           else arr) n i (j + 1)
      else arr)"
  by pat_completeness auto
termination
  by (relation "measure (\<lambda>(arr, n, i, j). nat (n - i - 1 - j))") auto

declare bubble_inner.simps [simp del]

function bubble_outer :: "int list \<Rightarrow> int \<Rightarrow> int \<Rightarrow> int list" where
  "bubble_outer arr n i =
     (if i < n - 1 then bubble_outer (bubble_inner arr n i 0) n (i + 1) else arr)"
  by pat_completeness auto
termination
  by (relation "measure (\<lambda>(arr, n, i). nat (n - 1 - i))") auto

declare bubble_outer.simps [simp del]

definition bubble_sort :: "int list \<Rightarrow> int \<Rightarrow> int list" where
  "bubble_sort arr n = bubble_outer arr n 0"

subsection \<open>\<^verbatim>\<open>bubble-sort_optimized.c\<close>\<close>

definition MAX_VAL :: int where
  "MAX_VAL = 32768"

text \<open>
  The tally loop \<^verbatim>\<open>for (int i = 0; i < n; i++) count[arr[i]]++;\<close> on the frequency
  table \<open>tab\<close> (the source's \<^verbatim>\<open>count\<close>). The source indexes the table with the
  element, unchecked: an element outside the table is the fault \<open>IndexOutOfRange\<close>.
\<close>

function count_frequencies :: "int list \<Rightarrow> int \<Rightarrow> int \<Rightarrow> int list \<Rightarrow> fault + int list" where
  "count_frequencies arr n i tab =
     (if i < n then
        (let v = arr ! nat i
         in if 0 \<le> v \<and> v < int (length tab) then
              count_frequencies arr n (i + 1) (tab[nat v := tab ! nat v + 1])
            else Inl IndexOutOfRange)
      else Inr tab)"
  by pat_completeness auto
termination
  by (relation "measure (\<lambda>(arr, n, i, tab). nat (n - i))") auto

declare count_frequencies.simps [simp del]

text \<open>
  The two emit loops of the reconstruction. \<open>emit8\<close> is
  \<^verbatim>\<open>while (c >= 8) { arr[idx] = val; ... arr[idx+7] = val; idx += 8; c -= 8; }\<close>
  and \<open>emit1\<close> is \<^verbatim>\<open>while (c > 0) { arr[idx++] = val; c--; }\<close>; both return the
  array, \<open>idx\<close> and \<open>c\<close>.
\<close>

function emit8 :: "int list \<Rightarrow> int \<Rightarrow> int \<Rightarrow> int \<Rightarrow> fault + (int list \<times> int \<times> int)" where
  "emit8 arr idx val c =
     (if c \<ge> 8 then
        bind_fault (store arr idx val) (\<lambda>arr.
        bind_fault (store arr (idx + 1) val) (\<lambda>arr.
        bind_fault (store arr (idx + 2) val) (\<lambda>arr.
        bind_fault (store arr (idx + 3) val) (\<lambda>arr.
        bind_fault (store arr (idx + 4) val) (\<lambda>arr.
        bind_fault (store arr (idx + 5) val) (\<lambda>arr.
        bind_fault (store arr (idx + 6) val) (\<lambda>arr.
        bind_fault (store arr (idx + 7) val) (\<lambda>arr.
        emit8 arr (idx + 8) val (c - 8)))))))))
      else Inr (arr, idx, c))"
  by pat_completeness auto
termination
  by (relation "measure (\<lambda>(arr, idx, val, c). nat c)") auto

declare emit8.simps [simp del]

function emit1 :: "int list \<Rightarrow> int \<Rightarrow> int \<Rightarrow> int \<Rightarrow> fault + (int list \<times> int \<times> int)" where
  "emit1 arr idx val c =
     (if c > 0 then
        bind_fault (store arr idx val) (\<lambda>arr. emit1 arr (idx + 1) val (c - 1))
      else Inr (arr, idx, c))"
  by pat_completeness auto
termination
  by (relation "measure (\<lambda>(arr, idx, val, c). nat c)") auto

declare emit1.simps [simp del]

text \<open>
  The reconstruction loop \<^verbatim>\<open>for (int val = 0; val < MAX_VAL; val++)\<close>, with the
  bound as the argument \<open>max_val\<close>.
\<close>

function reconstruct :: "int list \<Rightarrow> int list \<Rightarrow> int \<Rightarrow> int \<Rightarrow> int \<Rightarrow> fault + int list" where
  "reconstruct arr tab max_val idx val =
     (if val < max_val then
        (let c = tab ! nat val
         in if c > 0 then
              bind_fault (emit8 arr idx val c) (\<lambda>(arr, idx, c).
              bind_fault (emit1 arr idx val c) (\<lambda>(arr, idx, c).
              reconstruct arr tab max_val idx (val + 1)))
            else reconstruct arr tab max_val idx (val + 1))
      else Inr arr)"
  by pat_completeness auto
termination
  by (relation "measure (\<lambda>(arr, tab, max_val, idx, val). nat (max_val - val))") auto

declare reconstruct.simps [simp del]

text \<open>
  \<open>optimized_sort\<close>: \<^verbatim>\<open>calloc\<close> gives the table of \<open>MAX_VAL\<close> zeros (the source
  does not test its result; the model takes the allocation to succeed). The result is the
  sorted array, or the fault of the first access that left an array.
\<close>

definition optimized_sort :: "int list \<Rightarrow> int \<Rightarrow> fault + int list" where
  "optimized_sort arr n =
     (let tab = replicate (nat MAX_VAL) 0
      in bind_fault (count_frequencies arr n 0 tab) (\<lambda>tab.
         reconstruct arr tab MAX_VAL 0 0))"

subsection \<open>The checksum reductions of the two drivers\<close>

text \<open>
  \<^verbatim>\<open>bubble-sort_baseline.c\<close>:
  \<^verbatim>\<open>for (int i = 0; i < N; i++) checksum += arr[i] * (long long)(i + 1);\<close>
  The sums are \<^verbatim>\<open>long long\<close>; with 15-bit elements they stay far below \<open>2 ^ 63\<close>
  and are modelled as \<open>int\<close>.
\<close>

function checksum_loop :: "int list \<Rightarrow> int \<Rightarrow> int \<Rightarrow> int \<Rightarrow> int" where
  "checksum_loop arr n i checksum =
     (if i < n then checksum_loop arr n (i + 1) (checksum + arr ! nat i * (i + 1))
      else checksum)"
  by pat_completeness auto
termination
  by (relation "measure (\<lambda>(arr, n, i, checksum). nat (n - i))") auto

declare checksum_loop.simps [simp del]

definition checksum_baseline :: "int list \<Rightarrow> int \<Rightarrow> int" where
  "checksum_baseline arr n = checksum_loop arr n 0 0"

text \<open>
  \<^verbatim>\<open>bubble-sort_optimized.c\<close>: four partial sums over blocks of four, and the
  remainder loop \<^verbatim>\<open>for (int j = i; j < N && j < i + 4; j++)\<close> that adds to
  \<^verbatim>\<open>checksum\<close>. After the loop the source assigns
  \<^verbatim>\<open>checksum = sum1 + sum2 + sum3 + sum4;\<close>.
\<close>

function checksum_remainder :: "int list \<Rightarrow> int \<Rightarrow> int \<Rightarrow> int \<Rightarrow> int \<Rightarrow> int" where
  "checksum_remainder arr n i j checksum =
     (if j < n \<and> j < i + 4 then
        checksum_remainder arr n i (j + 1) (checksum + arr ! nat j * (j + 1))
      else checksum)"
  by pat_completeness auto
termination
  by (relation "measure (\<lambda>(arr, n, i, j, checksum). nat (n - j))") auto

declare checksum_remainder.simps [simp del]

record sums =
  checksum :: int
  sum1 :: int
  sum2 :: int
  sum3 :: int
  sum4 :: int

function checksum_unrolled_loop :: "int list \<Rightarrow> int \<Rightarrow> int \<Rightarrow> sums \<Rightarrow> sums" where
  "checksum_unrolled_loop arr n i s =
     (if i < n then
        (let base = i + 1
         in if i + 3 < n then
              checksum_unrolled_loop arr n (i + 4)
                (s\<lparr>sum1 := sum1 s + arr ! nat i * base,
                   sum2 := sum2 s + arr ! nat (i + 1) * (base + 1),
                   sum3 := sum3 s + arr ! nat (i + 2) * (base + 2),
                   sum4 := sum4 s + arr ! nat (i + 3) * (base + 3)\<rparr>)
            else
              checksum_unrolled_loop arr n (i + 4)
                (s\<lparr>checksum := checksum_remainder arr n i i (checksum s)\<rparr>))
      else s)"
  by pat_completeness auto
termination
  by (relation "measure (\<lambda>(arr, n, i, s). nat (n - i))") auto

declare checksum_unrolled_loop.simps [simp del]

definition checksum_optimized :: "int list \<Rightarrow> int \<Rightarrow> int" where
  "checksum_optimized arr n =
     (let s = checksum_unrolled_loop arr n 0
                \<lparr>checksum = 0, sum1 = 0, sum2 = 0, sum3 = 0, sum4 = 0\<rparr>;
          s = s\<lparr>checksum := sum1 s + sum2 s + sum3 s + sum4 s\<rparr>
      in checksum s)"

subsection \<open>Specification of the sort kernel\<close>

text \<open>
  \<open>counts_expand f m\<close> is the list that holds each value \<open>v < m\<close> exactly \<open>f v\<close>
  times, in ascending order: what a counting sort has to write. \<open>fill_at arr idx c v\<close>
  is the array \<open>arr\<close> with \<open>c\<close> copies of \<open>v\<close> written from index \<open>idx\<close> on.
\<close>

definition counts_expand :: "(nat \<Rightarrow> nat) \<Rightarrow> nat \<Rightarrow> int list" where
  "counts_expand f m = concat (map (\<lambda>v. replicate (f v) (int v)) [0..<m])"

definition fill_at :: "int list \<Rightarrow> nat \<Rightarrow> nat \<Rightarrow> int \<Rightarrow> int list" where
  "fill_at arr idx c v = take idx arr @ replicate c v @ drop (idx + c) arr"

text \<open>
  The invariants of the exchange sort: in \<open>tail_ordered t arr\<close> every position from
  \<open>t\<close> on holds a value that is at least every value before it. \<open>swap_step\<close> is the
  compare-and-swap of the positions \<open>j\<close> and \<open>j + 1\<close>, on natural-number indices.
\<close>

definition tail_ordered :: "nat \<Rightarrow> int list \<Rightarrow> bool" where
  "tail_ordered t arr \<longleftrightarrow> (\<forall>k l. k \<le> l \<and> l < length arr \<and> t \<le> l \<longrightarrow> arr ! k \<le> arr ! l)"

definition swap_step :: "int list \<Rightarrow> nat \<Rightarrow> int list" where
  "swap_step arr j =
     (if arr ! j > arr ! (j + 1) then arr[j := arr ! (j + 1), j + 1 := arr ! j] else arr)"

text \<open>The first \<open>m\<close> elements of the array are 15-bit values.\<close>

definition in_range_upto :: "int list \<Rightarrow> nat \<Rightarrow> bool" where
  "in_range_upto arr m \<longleftrightarrow> (\<forall>k<length arr. k < m \<longrightarrow> 0 \<le> arr ! k \<and> arr ! k < 32768)"

section \<open>Prime kernel\<close>

text \<open>
  The numbers are C \<^verbatim>\<open>int\<close>s below \<open>2 ^ 31\<close>, modelled as \<open>int\<close>; \<^verbatim>\<open>n % i\<close> is
  only evaluated for \<open>n \<ge> 2\<close> and \<open>i \<ge> 2\<close>, where it is \<open>n mod i\<close>.
\<close>

subsection \<open>\<^verbatim>\<open>prime-sieve_baseline.c\<close>\<close>

text \<open>\<open>is_prime_loop\<close> is \<^verbatim>\<open>for (int i = 2; i < n; i++) if (n % i == 0) return false;\<close>.\<close>

function is_prime_loop :: "int \<Rightarrow> int \<Rightarrow> bool" where
  "is_prime_loop n i =
     (if i < n then (if n mod i = 0 then False else is_prime_loop n (i + 1)) else True)"
  by pat_completeness auto
termination
  by (relation "measure (\<lambda>(n, i). nat (n - i))") auto

declare is_prime_loop.simps [simp del]

definition is_prime :: "int \<Rightarrow> bool" where
  "is_prime n = (if n < 2 then False else is_prime_loop n 2)"

text \<open>
  The scan of the driver,
  \<^verbatim>\<open>for (int i = 2; i < MAX; i++) if (is_prime(i)) { count++; sum += i; }\<close>,
  on the pair of \<^verbatim>\<open>count\<close> and \<^verbatim>\<open>sum\<close>, with the bound as an argument.
\<close>

definition tally :: "bool \<Rightarrow> int \<Rightarrow> int \<times> int \<Rightarrow> int \<times> int" where
  "tally p i acc = (if p then (fst acc + 1, snd acc + i) else acc)"

function prime_scan :: "int \<Rightarrow> int \<Rightarrow> int \<times> int \<Rightarrow> int \<times> int" where
  "prime_scan bound i acc =
     (if i < bound then prime_scan bound (i + 1) (tally (is_prime i) i acc) else acc)"
  by pat_completeness auto
termination
  by (relation "measure (\<lambda>(bound, i, acc). nat (bound - i))") auto

declare prime_scan.simps [simp del]

text \<open>The bound \<^verbatim>\<open>#define MAX 100000\<close> of both drivers.\<close>

definition MAX_bound :: int where
  "MAX_bound = 100000"

definition prime_sieve_baseline_main :: "int \<Rightarrow> int \<times> int" where
  "prime_sieve_baseline_main bound = prime_scan bound 2 (0, 0)"

subsection \<open>\<^verbatim>\<open>prime-sieve_optimized.c\<close>\<close>

text \<open>
  \<^verbatim>\<open>int limit = (int)sqrt(n);\<close> converts \<open>n\<close> to a double, takes the correctly rounded
  square root and truncates it. For \<open>0 \<le> n < 2 ^ 31\<close> the conversion is exact and the
  truncated root is the integer square root, which \<open>floor_sqrt\<close> computes by counting up.
\<close>

function sqrt_search :: "int \<Rightarrow> int \<Rightarrow> int" where
  "sqrt_search n r = (if (r + 1) * (r + 1) \<le> n then sqrt_search n (r + 1) else r)"
  by pat_completeness auto
termination
proof (relation "measure (\<lambda>(n, r). nat (n - r))")
  show "wf (measure (\<lambda>(n, r). nat (n - r)))" by simp
next
  fix n r :: int
  assume h: "(r + 1) * (r + 1) \<le> n"
  have "r < n"
  proof (cases "0 \<le> r")
    case True
    then have "(r + 1) * 1 \<le> (r + 1) * (r + 1)" by (intro mult_left_mono) auto
    with h show ?thesis by simp
  next
    case False
    have "0 \<le> (r + 1) * (r + 1)" by simp
    with h False show ?thesis by linarith
  qed
  then show "((n, r + 1), (n, r)) \<in> measure (\<lambda>(n, r). nat (n - r))" by simp
qed

declare sqrt_search.simps [simp del]

definition floor_sqrt :: "int \<Rightarrow> int" where
  "floor_sqrt n = sqrt_search n 0"

text \<open>
  \<open>is_prime_optimized_loop\<close> is
  \<^verbatim>\<open>for (int i = 3; i <= limit; i += 2) if (n % i == 0) return false;\<close>.
\<close>

function is_prime_optimized_loop :: "int \<Rightarrow> int \<Rightarrow> int \<Rightarrow> bool" where
  "is_prime_optimized_loop n limit i =
     (if i \<le> limit then
        (if n mod i = 0 then False else is_prime_optimized_loop n limit (i + 2))
      else True)"
  by pat_completeness auto
termination
  by (relation "measure (\<lambda>(n, limit, i). nat (limit + 1 - i))") auto

declare is_prime_optimized_loop.simps [simp del]

definition is_prime_optimized :: "int \<Rightarrow> bool" where
  "is_prime_optimized n =
     (if n < 2 then False
      else if n = 2 then True
      else if n mod 2 = 0 then False
      else (let limit = floor_sqrt n in is_prime_optimized_loop n limit 3))"

text \<open>
  The scan of the optimized driver: it starts from \<^verbatim>\<open>count = 1; sum = 2;\<close> and each
  round of \<^verbatim>\<open>for (int i = 3; i < MAX; i += 2)\<close> tests \<open>i\<close>, tests \<open>next = i + 2\<close>
  if it is below the bound, and adds another 2 to \<open>i\<close>.
\<close>

function prime_scan_optimized :: "int \<Rightarrow> int \<Rightarrow> int \<times> int \<Rightarrow> int \<times> int" where
  "prime_scan_optimized bound i acc =
     (if i < bound then
        (let acc = tally (is_prime_optimized i) i acc;
             next = i + 2;
             acc = tally (next < bound \<and> is_prime_optimized next) next acc;
             i = i + 2
         in prime_scan_optimized bound (i + 2) acc)
      else acc)"
  by pat_completeness auto
termination
  by (relation "measure (\<lambda>(bound, i, acc). nat (bound - i))") auto

declare prime_scan_optimized.simps [simp del]

definition prime_sieve_optimized_main :: "int \<Rightarrow> int \<times> int" where
  "prime_sieve_optimized_main bound = prime_scan_optimized bound 3 (1, 2)"

subsection \<open>Specification of the prime kernel\<close>

text \<open>
  \<open>no_divisor_in n a b\<close>: no \<open>d\<close> with \<open>a \<le> d < b\<close> divides \<open>n\<close>;
  \<open>no_odd_divisor n i limit\<close>: none of \<open>i, i + 2, i + 4, \<dots>\<close> up to \<open>limit\<close>
  divides \<open>n\<close>.
\<close>

definition no_divisor_in :: "int \<Rightarrow> int \<Rightarrow> int \<Rightarrow> bool" where
  "no_divisor_in n a b \<longleftrightarrow> (\<forall>d. a \<le> d \<and> d < b \<longrightarrow> n mod d \<noteq> 0)"

definition no_odd_divisor :: "int \<Rightarrow> int \<Rightarrow> int \<Rightarrow> bool" where
  "no_odd_divisor n i limit \<longleftrightarrow> (\<forall>k. 0 \<le> k \<and> i + 2 * k \<le> limit \<longrightarrow> n mod (i + 2 * k) \<noteq> 0)"

section \<open>Matrix kernel\<close>

text \<open>
  A matrix is a row-major array of \<open>N * N\<close> elements, a list. The elements are
  \<^verbatim>\<open>double\<close>s in the source; the model is over any type with an addition, a
  multiplication and a zero, and assumes no law of them, so that it covers the rounded
  operations too. The dimension \<^verbatim>\<open>#define N 256\<close> is the argument \<open>N\<close>. Both functions
  are called with arrays of \<open>N * N\<close> elements, which keeps every index in range.
\<close>

subsection \<open>\<^verbatim>\<open>matrix-multiply_baseline.c\<close>\<close>








subsection \<open>\<^verbatim>\<open>matrix-multiply_optimized.c\<close>\<close>

















subsection \<open>Specification of the matrix product\<close>





section \<open>Drivers and their buffers\<close>

text \<open>
  Each \<^verbatim>\<open>main\<close> obtains its buffer from \<^verbatim>\<open>malloc\<close>, which returns a null pointer
  when it fails. The result of the call is an argument of the model: \<open>None\<close> is the
  null pointer, \<open>Some buf\<close> a buffer of the requested size with whatever contents.
  \<open>deref\<close> is the access to the buffer behind the pointer; through the null pointer it
  is a fault. A driver returns the value it prints, or the fault of its first undefined
  access.
\<close>

definition deref :: "'a list option \<Rightarrow> fault + 'a list" where
  "deref p = (case p of None \<Rightarrow> Inl NullDereference | Some buf \<Rightarrow> Inr buf)"

text \<open>
  \<^verbatim>\<open>bubble-sort_optimized.c\<close>, \<open>optimized_sort\<close> with the result of its
  \<^verbatim>\<open>calloc(MAX_VAL, sizeof(int))\<close> as the argument \<open>count_ptr\<close>: no statement tests
  the pointer, and the table behind it is read and written by the frequency loop
  (\<^verbatim>\<open>count[arr[i]]++\<close>) and read by the reconstruction (\<^verbatim>\<open>int c = count[val];\<close>,
  also when \<open>n \<le> 0\<close>).
\<close>

definition optimized_sort_alloc :: "int list option \<Rightarrow> int list \<Rightarrow> int \<Rightarrow> fault + int list" where
  "optimized_sort_alloc count_ptr arr n =
     bind_fault (deref count_ptr) (\<lambda>tab.
     bind_fault (count_frequencies arr n 0 tab) (\<lambda>tab.
     reconstruct arr tab MAX_VAL 0 0))"

text \<open>
  \<^verbatim>\<open>bubble-sort_baseline.c\<close>, \<^verbatim>\<open>main\<close>: no statement tests \<^verbatim>\<open>arr\<close>. Its first
  access is the store \<^verbatim>\<open>arr[0] = ...\<close> of the fill loop, made when \<open>0 < N\<close>
  (\<open>N\<close> is 10000); with \<open>N \<le> 0\<close> no loop runs and the checksum 0 is printed.
\<close>

definition bubble_sort_baseline_main :: "int \<Rightarrow> int list option \<Rightarrow> fault + int" where
  "bubble_sort_baseline_main N arr =
     (if 0 < N then
        bind_fault (deref arr) (\<lambda>arr.
          (let arr = fst (fill_baseline arr N 0 12345);
               arr = bubble_sort arr N
           in Inr (checksum_baseline arr N)))
      else Inr 0)"

text \<open>
  \<^verbatim>\<open>string-search_baseline.c\<close>, \<^verbatim>\<open>main\<close>: the text is filled with
  \<^verbatim>\<open>text[i] = 'A' + ((seed >> 16) % 8);\<close> from seed 42 and closed with
  \<^verbatim>\<open>text[TEXT_LEN] = '\0';\<close>; no statement tests \<^verbatim>\<open>text\<close>. The string passed to
  \<open>naive_search\<close> is the bytes of the buffer before the first NUL.
\<close>

definition lcg_letter :: "u32 \<Rightarrow> char" where
  "lcg_letter seed = char_of (of_char CHR ''A'' + unat (drop_bit 16 seed mod 8))"

function fill_text :: "string \<Rightarrow> int \<Rightarrow> int \<Rightarrow> u32 \<Rightarrow> string \<times> u32" where
  "fill_text buf n i seed =
     (if i < n then
        (let seed = lcg_next seed
         in fill_text (buf[nat i := lcg_letter seed]) n (i + 1) seed)
      else (buf, seed))"
  by pat_completeness auto
termination
  by (relation "measure (\<lambda>(buf, n, i, seed). nat (n - i))") auto

declare fill_text.simps [simp del]

definition PATTERN :: string where
  "PATTERN = ''ABCDABD''"

definition string_search_baseline_main :: "int \<Rightarrow> string option \<Rightarrow> fault + int" where
  "string_search_baseline_main TEXT_LEN text_ptr =
     bind_fault (deref text_ptr) (\<lambda>buf.
       (let buf = fst (fill_text buf TEXT_LEN 0 42);
            buf = buf[nat TEXT_LEN := CHR 0x00]
        in Inr (naive_search (takeWhile (\<lambda>c. c \<noteq> CHR 0x00) buf) PATTERN)))"

text \<open>
  \<^verbatim>\<open>array-sum_baseline.c\<close>: \<open>array_sum\<close> is the sequential sum, and \<^verbatim>\<open>main\<close> fills
  the array with \<^verbatim>\<open>arr[i] = 1.0 / (i + 1);\<close>, here \<open>recip i\<close> for any function
  \<open>recip\<close> into any type with an addition and a zero; no statement tests \<^verbatim>\<open>arr\<close>.
\<close>

function array_sum_loop :: "'a::{plus,zero} list \<Rightarrow> int \<Rightarrow> int \<Rightarrow> 'a \<Rightarrow> 'a" where
  "array_sum_loop arr n i acc =
     (if i < n then array_sum_loop arr n (i + 1) (acc + arr ! nat i) else acc)"
  by pat_completeness auto
termination
  by (relation "measure (\<lambda>(arr, n, i, acc). nat (n - i))") auto

declare array_sum_loop.simps [simp del]

definition array_sum :: "'a::{plus,zero} list \<Rightarrow> int \<Rightarrow> 'a" where
  "array_sum arr n = array_sum_loop arr n 0 0"

function fill_recip :: "(int \<Rightarrow> 'a) \<Rightarrow> 'a list \<Rightarrow> int \<Rightarrow> int \<Rightarrow> 'a list" where
  "fill_recip recip arr n i =
     (if i < n then fill_recip recip (arr[nat i := recip i]) n (i + 1) else arr)"
  by pat_completeness auto
termination
  by (relation "measure (\<lambda>(recip, arr, n, i). nat (n - i))") auto

declare fill_recip.simps [simp del]

definition array_sum_baseline_main ::
  "(int \<Rightarrow> 'a::{plus,zero}) \<Rightarrow> int \<Rightarrow> 'a list option \<Rightarrow> fault + 'a" where
  "array_sum_baseline_main recip N arr =
     (if 0 < N then
        bind_fault (deref arr) (\<lambda>arr.
          (let arr = fill_recip recip arr N 0
           in Inr (array_sum arr N)))
      else Inr 0)"

section \<open>Results: Fibonacci kernel\<close>

lemma fibonacci_baseline_table:
  "map fibonacci_baseline [0, 1, 2, 3, 4, 5, 6, 7, 8, 9, 10] =
     [0, 1, 1, 2, 3, 5, 8, 13, 21, 34, 55]"
  by (simp add: fibonacci_baseline.simps)

lemma fibonacci_optimized_table:
  "map fibonacci_optimized [0, 1, 2, 3, 4, 5, 6, 7, 8, 9, 10] =
     [0, 1, 1, 2, 3, 5, 8, 13, 21, 34, 55]"
  by (simp add: fibonacci_optimized_def fibonacci_loop.simps)

lemma fibonacci_baseline_main_10: "fibonacci_baseline_main 10 = 88"
  by (simp add: fibonacci_baseline_main_def fibonacci_sum_loop.simps fibonacci_baseline.simps)

lemma fibonacci_optimized_main_10: "fibonacci_optimized_main 10 = 88"
  by (simp add: fibonacci_optimized_main_def fibonacci_sum_loop.simps
      fibonacci_optimized_def fibonacci_loop.simps)

lemma fibonacci_baseline_main_11: "fibonacci_baseline_main 11 = 143"
  by (simp add: fibonacci_baseline_main_def fibonacci_sum_loop.simps fibonacci_baseline.simps)

lemma fibonacci_optimized_main_11: "fibonacci_optimized_main 11 = 143"
  by (simp add: fibonacci_optimized_main_def fibonacci_sum_loop.simps
      fibonacci_optimized_def fibonacci_loop.simps)

text \<open>
  C6, as stated, fails: the running sum of \<open>fibonacci i\<close> over \<open>i = 0..9\<close> (the driver
  loop with bound 10) is not 143, for the baseline and for the optimized function.
\<close>

theorem C6_sum_0_to_9_is_not_143:
  "fibonacci_baseline_main 10 \<noteq> 143 \<and> fibonacci_optimized_main 10 \<noteq> 143"
  by (simp add: fibonacci_baseline_main_10 fibonacci_optimized_main_10)

text \<open>
  C6, amended: both fibonacci functions return 0, 1, 1, 2, 3, 5, 8, 13, 21, 34, 55 for
  \<open>n = 0..10\<close>; the running sum over \<open>i = 0..9\<close> is 88, and it is the running sum
  over \<open>i = 0..10\<close> that equals 143.
\<close>

theorem C6_fibonacci_values_and_sums:
  "map fibonacci_baseline [0, 1, 2, 3, 4, 5, 6, 7, 8, 9, 10] =
     [0, 1, 1, 2, 3, 5, 8, 13, 21, 34, 55]
   \<and> map fibonacci_optimized [0, 1, 2, 3, 4, 5, 6, 7, 8, 9, 10] =
     [0, 1, 1, 2, 3, 5, 8, 13, 21, 34, 55]
   \<and> fibonacci_baseline_main 10 = 88 \<and> fibonacci_optimized_main 10 = 88
   \<and> fibonacci_baseline_main 11 = 143 \<and> fibonacci_optimized_main 11 = 143"
  using fibonacci_baseline_table fibonacci_optimized_table
    fibonacci_baseline_main_10 fibonacci_optimized_main_10
    fibonacci_baseline_main_11 fibonacci_optimized_main_11
  by blast

section \<open>Results: substring search kernel\<close>

subsection \<open>The baseline counts the occurrences\<close>





lemma naive_inner_le:
  "j \<le> m \<Longrightarrow> naive_inner tx pat m i j \<le> m"
  by (induction tx pat m i j rule: naive_inner.induct)
     (subst naive_inner.simps, auto)





subsection \<open>The match tests and the shift table of the optimized search\<close>





lemma bmh_inner_lower: "- 1 \<le> j \<Longrightarrow> - 1 \<le> bmh_inner tx pat i j"
  by (induction tx pat i j rule: bmh_inner.induct) (subst bmh_inner.simps, auto)







subsection \<open>The optimized loops count the occurrences\<close>






text \<open>
  The fast path as the driver calls it: a pattern of at most 14 bytes in a buffer that
  ends within 15 bytes of its first byte. The load of the pattern vector, made before the
  loop, does not lie inside the buffer.
\<close>

lemma optimized_search_pattern_load_out_of_range:
  assumes "pat \<noteq> []" "length pat \<le> length tx" "length pat + length pat_tail < 15"
  shows "optimized_search tx pat tx_tail pat_tail = Some (Inl IndexOutOfRange)"
  using assms by (simp add: optimized_search_def Let_def mm_loadu_si128_def)





text \<open>
  C9: for every text of length \<open>n\<close> and pattern of length \<open>m\<close>, if \<open>m = 0\<close> or
  \<open>n < m\<close> then \<open>optimized_search\<close> returns 0 (and makes no access that could be
  a fault), whatever the buffers of the two strings.
\<close>

theorem C9_optimized_search_rejects_up_front:
  "length pattern = 0 \<or> length text < length pattern \<Longrightarrow>
     optimized_search text pattern text_tail pattern_tail = Some (Inr 0)"
  by (auto simp: optimized_search_def)

theorem C9_optimized_search_rejects_up_front_witness:
  "(length '''' = 0 \<or> length ''ABC'' < length '''')
   \<and> (length ''ABCDABD'' = 0 \<or> length ''ABC'' < length ''ABCDABD'')
   \<and> optimized_search ''ABC'' '''' [] [] = Some (Inr 0)
   \<and> optimized_search ''ABC'' ''ABCDABD'' [] [] = Some (Inr 0)"
  using C9_optimized_search_rejects_up_front [of "''''" "''ABC''" "[]" "[]"]
    C9_optimized_search_rejects_up_front [of "''ABCDABD''" "''ABC''" "[]" "[]"]
  by simp

section \<open>Results: sort kernel\<close>

subsection \<open>What a counting sort writes\<close>

lemma counts_expand_0: "counts_expand f 0 = []"
  by (simp add: counts_expand_def)

lemma counts_expand_Suc:
  "counts_expand f (Suc m) = counts_expand f m @ replicate (f m) (int m)"
  by (simp add: counts_expand_def)

lemma set_counts_expand: "x \<in> set (counts_expand f m) \<Longrightarrow> 0 \<le> x \<and> x < int m"
  by (induction m) (auto simp: counts_expand_0 counts_expand_Suc)

lemma sorted_counts_expand: "sorted (counts_expand f m)"
proof (induction m)
  case 0
  show ?case by (simp add: counts_expand_0)
next
  case (Suc m)
  have "x \<le> y" if "x \<in> set (counts_expand f m)" "y \<in> set (replicate (f m) (int m))" for x y
    using set_counts_expand [OF that(1)] that(2) by auto
  with Suc show ?case
    by (simp add: counts_expand_Suc sorted_append)
qed

lemma count_counts_expand:
  "count (mset (counts_expand f m)) x = (if 0 \<le> x \<and> x < int m then f (nat x) else 0)"
proof (induction m)
  case 0
  show ?case by (simp add: counts_expand_0)
next
  case (Suc m)
  show ?case
  proof (cases "x = int m")
    case True
    then show ?thesis using Suc by (simp add: counts_expand_Suc)
  next
    case False
    then have "(0 \<le> x \<and> x < int (Suc m)) = (0 \<le> x \<and> x < int m)" by auto
    with False Suc show ?thesis by (simp add: counts_expand_Suc)
  qed
qed

lemma mset_counts_expand:
  assumes "\<forall>x\<in>set arr. 0 \<le> x \<and> x < int m"
  shows "mset (counts_expand (\<lambda>v. count (mset arr) (int v)) m) = mset arr"
proof (rule multiset_eqI)
  fix x
  show "count (mset (counts_expand (\<lambda>v. count (mset arr) (int v)) m)) x = count (mset arr) x"
  proof (cases "0 \<le> x \<and> x < int m")
    case True
    then show ?thesis by (simp add: count_counts_expand)
  next
    case False
    with assms have "x \<notin> set arr" by blast
    then have "count (mset arr) x = 0" by (simp add: count_eq_zero_iff)
    with False show ?thesis by (simp add: count_counts_expand)
  qed
qed

lemma length_counts_expand_mono:
  "a \<le> b \<Longrightarrow> length (counts_expand f a) \<le> length (counts_expand f b)"
proof (induction b)
  case 0
  then show ?case by simp
next
  case (Suc b)
  then show ?case
    by (cases "a = Suc b") (auto simp: counts_expand_Suc)
qed

lemma length_fill_at: "idx + c \<le> length arr \<Longrightarrow> length (fill_at arr idx c v) = length arr"
  by (simp add: fill_at_def)

lemma fill_at_0: "fill_at arr idx 0 v = arr"
  by (simp add: fill_at_def)

lemma store_fill_at:
  assumes "0 \<le> idx" "nat idx < length arr"
  shows "store arr idx v = Inr (fill_at arr (nat idx) 1 v)"
proof -
  have "arr[nat idx := v] = take (nat idx) arr @ v # drop (Suc (nat idx)) arr"
    using assms(2) by (rule upd_conv_take_nth_drop)
  then show ?thesis using assms by (simp add: store_def fill_at_def)
qed

lemma fill_at_fill_at:
  assumes "idx + a + b \<le> length arr"
  shows "fill_at (fill_at arr idx a v) (idx + a) b v = fill_at arr idx (a + b) v"
proof -
  have "take (idx + a) (fill_at arr idx a v) = take idx arr @ replicate a v"
    using assms by (simp add: fill_at_def)
  moreover have "drop (idx + a + b) (fill_at arr idx a v) = drop (idx + a + b) arr"
    using assms by (simp add: fill_at_def ac_simps)
  ultimately show ?thesis
    by (simp add: fill_at_def [of "fill_at arr idx a v"] fill_at_def [of arr idx "a + b"]
        replicate_add add.assoc)
qed

lemma store_after_fill:
  assumes "0 \<le> idx" "nat idx + a + 1 \<le> length arr"
  shows "store (fill_at arr (nat idx) a v) (idx + int a) v = Inr (fill_at arr (nat idx) (Suc a) v)"
proof -
  have len: "length (fill_at arr (nat idx) a v) = length arr"
    using assms by (intro length_fill_at) simp
  have n: "nat (idx + int a) = nat idx + a" using assms(1) by (simp add: nat_add_distrib)
  have "store (fill_at arr (nat idx) a v) (idx + int a) v
      = Inr (fill_at (fill_at arr (nat idx) a v) (nat (idx + int a)) 1 v)"
    using assms len n by (intro store_fill_at) auto
  also have "fill_at (fill_at arr (nat idx) a v) (nat (idx + int a)) 1 v
      = fill_at arr (nat idx) (a + 1) v"
    unfolding n using assms by (intro fill_at_fill_at) simp
  finally show ?thesis by simp
qed

lemma emit1_fill:
  "0 \<le> idx \<Longrightarrow> 0 \<le> c \<Longrightarrow> nat idx + nat c \<le> length arr \<Longrightarrow>
     emit1 arr idx v c = Inr (fill_at arr (nat idx) (nat c) v, idx + c, 0)"
proof (induction arr idx v c rule: emit1.induct)
  case (1 arr idx v c)
  show ?case
  proof (cases "c > 0")
    case False
    with "1.prems" have "c = 0" by simp
    then show ?thesis by (subst emit1.simps) (simp add: fill_at_0)
  next
    case True
    have st: "store arr idx v = Inr (fill_at arr (nat idx) 1 v)"
      using "1.prems" True by (intro store_fill_at) auto
    have len: "length (fill_at arr (nat idx) 1 v) = length arr"
      using "1.prems" True by (intro length_fill_at) auto
    have n1: "nat (idx + 1) = nat idx + 1" "nat c = 1 + nat (c - 1)"
      using "1.prems" True by auto
    have "emit1 (fill_at arr (nat idx) 1 v) (idx + 1) v (c - 1)
        = Inr (fill_at (fill_at arr (nat idx) 1 v) (nat (idx + 1)) (nat (c - 1)) v,
               idx + 1 + (c - 1), 0)"
      using "1.prems" True len by (intro "1.IH" [OF True]) auto
    also have "fill_at (fill_at arr (nat idx) 1 v) (nat (idx + 1)) (nat (c - 1)) v
        = fill_at arr (nat idx) (nat c) v"
      unfolding n1(1) using "1.prems" True n1(2)
      by (subst fill_at_fill_at) auto
    finally show ?thesis
      using True st by (subst emit1.simps) (simp add: bind_fault_def)
  qed
qed

lemma store8_fill:
  assumes "0 \<le> idx" "nat idx + 8 \<le> length arr"
  shows "bind_fault (store arr idx v) (\<lambda>arr.
        bind_fault (store arr (idx + 1) v) (\<lambda>arr.
        bind_fault (store arr (idx + 2) v) (\<lambda>arr.
        bind_fault (store arr (idx + 3) v) (\<lambda>arr.
        bind_fault (store arr (idx + 4) v) (\<lambda>arr.
        bind_fault (store arr (idx + 5) v) (\<lambda>arr.
        bind_fault (store arr (idx + 6) v) (\<lambda>arr.
        bind_fault (store arr (idx + 7) v) k)))))))
     = k (fill_at arr (nat idx) 8 v)"
proof -
  have s0: "store arr idx v = Inr (fill_at arr (nat idx) 1 v)"
    using assms by (intro store_fill_at) auto
  have sk: "store (fill_at arr (nat idx) a v) (idx + int a) v
      = Inr (fill_at arr (nat idx) (Suc a) v)" if "a < 8" for a
    using assms that by (intro store_after_fill) auto
  have s1: "store (fill_at arr (nat idx) 1 v) (idx + 1) v = Inr (fill_at arr (nat idx) 2 v)"
    using sk [of 1] by (simp add: eval_nat_numeral)
  have s2: "store (fill_at arr (nat idx) 2 v) (idx + 2) v = Inr (fill_at arr (nat idx) 3 v)"
    using sk [of 2] by (simp add: eval_nat_numeral)
  have s3: "store (fill_at arr (nat idx) 3 v) (idx + 3) v = Inr (fill_at arr (nat idx) 4 v)"
    using sk [of 3] by (simp add: eval_nat_numeral)
  have s4: "store (fill_at arr (nat idx) 4 v) (idx + 4) v = Inr (fill_at arr (nat idx) 5 v)"
    using sk [of 4] by (simp add: eval_nat_numeral)
  have s5: "store (fill_at arr (nat idx) 5 v) (idx + 5) v = Inr (fill_at arr (nat idx) 6 v)"
    using sk [of 5] by (simp add: eval_nat_numeral)
  have s6: "store (fill_at arr (nat idx) 6 v) (idx + 6) v = Inr (fill_at arr (nat idx) 7 v)"
    using sk [of 6] by (simp add: eval_nat_numeral)
  have s7: "store (fill_at arr (nat idx) 7 v) (idx + 7) v = Inr (fill_at arr (nat idx) 8 v)"
    using sk [of 7] by (simp add: eval_nat_numeral)
  show ?thesis
    by (simp only: bind_fault_def s0 s1 s2 s3 s4 s5 s6 s7 sum.case)
qed

lemma emit8_fill:
  "0 \<le> idx \<Longrightarrow> 0 \<le> c \<Longrightarrow> nat idx + nat c \<le> length arr \<Longrightarrow>
     emit8 arr idx v c =
       Inr (fill_at arr (nat idx) (8 * (nat c div 8)) v, idx + 8 * (c div 8), c mod 8)"
proof (induction "nat c" arbitrary: arr idx c rule: less_induct)
  case less
  show ?case
  proof (cases "c \<ge> 8")
    case False
    with less.prems have "c div 8 = 0" "c mod 8 = c" "nat c div 8 = 0" by auto
    with False show ?thesis by (subst emit8.simps) (simp add: fill_at_0)
  next
    case True
    let ?arr = "fill_at arr (nat idx) 8 v"
    have len: "length ?arr = length arr"
      using less.prems True by (intro length_fill_at) auto
    have n8: "nat (idx + 8) = nat idx + 8" using less.prems by auto
    have "nat c = nat (c - 8) + 8" using True by simp
    then have d3: "nat c div 8 = 1 + nat (c - 8) div 8" by simp
    have d1: "c div 8 = 1 + (c - 8) div 8" by presburger
    have d2: "c mod 8 = (c - 8) mod 8" by presburger
    have "emit8 arr idx v c = emit8 ?arr (idx + 8) v (c - 8)"
      using True less.prems by (subst emit8.simps) (simp add: store8_fill)
    also have "\<dots> = Inr (fill_at ?arr (nat (idx + 8)) (8 * (nat (c - 8) div 8)) v,
        idx + 8 + 8 * ((c - 8) div 8), (c - 8) mod 8)"
    proof (rule less.hyps)
      show "nat (c - 8) < nat c" using True by simp
      show "0 \<le> idx + 8" using less.prems by simp
      show "0 \<le> c - 8" using True by simp
      show "nat (idx + 8) + nat (c - 8) \<le> length ?arr"
        using less.prems True len by simp
    qed
    also have "fill_at ?arr (nat (idx + 8)) (8 * (nat (c - 8) div 8)) v
        = fill_at arr (nat idx) (8 + 8 * (nat (c - 8) div 8)) v"
    proof -
      have "8 * (nat (c - 8) div 8) \<le> nat (c - 8)" by simp
      then have "nat idx + 8 + 8 * (nat (c - 8) div 8) \<le> length arr"
        using less.prems True by simp
      then show ?thesis unfolding n8 by (rule fill_at_fill_at)
    qed
    finally have "emit8 arr idx v c =
        Inr (fill_at arr (nat idx) (8 + 8 * (nat (c - 8) div 8)) v,
             idx + 8 + 8 * ((c - 8) div 8), (c - 8) mod 8)" .
    moreover have "8 + 8 * (nat (c - 8) div 8) = 8 * (nat c div 8)"
      unfolding d3 by simp
    moreover have "idx + 8 + 8 * ((c - 8) div 8) = idx + 8 * (c div 8)"
      unfolding d1 by simp
    ultimately show ?thesis
      by (simp only: d2 [symmetric])
  qed
qed

lemma emit_fill:
  assumes "0 \<le> idx" "0 \<le> c" "nat idx + nat c \<le> length arr"
  shows "bind_fault (emit8 arr idx v c) (\<lambda>(arr, idx, c).
         bind_fault (emit1 arr idx v c) (\<lambda>(arr, idx, c). k arr idx c))
       = k (fill_at arr (nat idx) (nat c) v) (idx + c) 0"
proof -
  let ?a = "8 * (nat c div 8)"
  let ?arr = "fill_at arr (nat idx) ?a v"
  have a: "?a \<le> nat c" by simp
  have len: "length ?arr = length arr"
    using assms a by (intro length_fill_at) linarith
  have m: "0 \<le> c mod 8" by simp
  have split: "nat c = ?a + nat (c mod 8)"
    using assms(2) by (simp add: nat_mod_distrib nat_div_distrib)
  have nidx: "nat (idx + 8 * (c div 8)) = nat idx + ?a"
    using assms(1,2) by (simp add: nat_add_distrib nat_mult_distrib nat_div_distrib)
  have e8: "emit8 arr idx v c = Inr (?arr, idx + 8 * (c div 8), c mod 8)"
    using assms by (rule emit8_fill)
  have e1: "emit1 ?arr (idx + 8 * (c div 8)) v (c mod 8)
      = Inr (fill_at ?arr (nat (idx + 8 * (c div 8))) (nat (c mod 8)) v,
             idx + 8 * (c div 8) + c mod 8, 0)"
  proof (rule emit1_fill)
    show "0 \<le> idx + 8 * (c div 8)" using assms(1,2) by (simp add: pos_imp_zdiv_nonneg_iff)
    show "0 \<le> c mod 8" by simp
    show "nat (idx + 8 * (c div 8)) + nat (c mod 8) \<le> length ?arr"
      unfolding nidx len using split assms(3) by linarith
  qed
  have f: "fill_at ?arr (nat (idx + 8 * (c div 8))) (nat (c mod 8)) v
      = fill_at arr (nat idx) (nat c) v"
  proof -
    have "nat idx + ?a + nat (c mod 8) \<le> length arr" using split assms(3) by linarith
    then have "fill_at ?arr (nat idx + ?a) (nat (c mod 8)) v
        = fill_at arr (nat idx) (?a + nat (c mod 8)) v"
      by (rule fill_at_fill_at)
    then show ?thesis unfolding nidx using split by simp
  qed
  have i: "idx + 8 * (c div 8) + c mod 8 = idx + c" by simp
  show ?thesis
    by (simp only: e8 e1 f i bind_fault_def sum.case prod.case)
qed

lemma count_frequencies_ok:
  "0 \<le> i \<Longrightarrow> n \<le> int (length arr) \<Longrightarrow>
   (\<forall>k. nat i \<le> k \<and> k < nat n \<longrightarrow> 0 \<le> arr ! k \<and> arr ! k < int (length tab)) \<Longrightarrow>
   \<exists>tab'. count_frequencies arr n i tab = Inr tab' \<and> length tab' = length tab \<and>
     (\<forall>v<length tab. tab' ! v =
        tab ! v + int (count (mset (drop (nat i) (take (nat n) arr))) (int v)))"
proof (induction arr n i tab rule: count_frequencies.induct)
  case (1 arr n i tab)
  show ?case
  proof (cases "i < n")
    case False
    then have "drop (nat i) (take (nat n) arr) = []" by simp
    with False show ?thesis by (subst count_frequencies.simps) simp
  next
    case True
    define v0 where "v0 = arr ! nat i"
    have i_lt: "nat i < nat n" "nat i < length arr" using True "1.prems" by auto
    then have v0: "0 \<le> v0 \<and> v0 < int (length tab)"
      using "1.prems"(3) by (simp add: v0_def)
    let ?tab = "tab[nat v0 := tab ! nat v0 + 1]"
    have suc: "nat (i + 1) = Suc (nat i)" using "1.prems"(1) by simp
    have "\<exists>tab'. count_frequencies arr n (i + 1) ?tab = Inr tab' \<and> length tab' = length ?tab \<and>
       (\<forall>v<length ?tab. tab' ! v =
          ?tab ! v + int (count (mset (drop (nat (i + 1)) (take (nat n) arr))) (int v)))"
    proof (rule "1.IH" [OF True v0_def])
      show "0 \<le> v0 \<and> v0 < int (length tab)" by (rule v0)
      show "0 \<le> i + 1" using "1.prems"(1) by simp
      show "n \<le> int (length arr)" by (rule "1.prems"(2))
      show "\<forall>k. nat (i + 1) \<le> k \<and> k < nat n \<longrightarrow> 0 \<le> arr ! k \<and> arr ! k < int (length ?tab)"
        using "1.prems"(3) suc by simp
    qed
    then obtain tab' where t: "count_frequencies arr n (i + 1) ?tab = Inr tab'"
      "length tab' = length tab"
      "\<forall>v<length tab. tab' ! v =
          ?tab ! v + int (count (mset (drop (nat (i + 1)) (take (nat n) arr))) (int v))"
      by auto
    have dr: "drop (nat i) (take (nat n) arr) = v0 # drop (nat (i + 1)) (take (nat n) arr)"
      unfolding suc v0_def using i_lt by (simp add: Cons_nth_drop_Suc [symmetric])
    have "tab' ! v = tab ! v + int (count (mset (drop (nat i) (take (nat n) arr))) (int v))"
      if "v < length tab" for v
    proof (cases "v = nat v0")
      case True
      then have "int v = v0" using v0 by simp
      with t(3) that True show ?thesis unfolding dr by simp
    next
      case False
      then have "int v \<noteq> v0" by auto
      with t(3) that False show ?thesis unfolding dr by simp
    qed
    moreover have "count_frequencies arr n i tab = count_frequencies arr n (i + 1) ?tab"
      using True v0 by (subst count_frequencies.simps) (simp add: v0_def Let_def)
    ultimately show ?thesis using t(1,2) by simp
  qed
qed

lemma reconstruct_ok:
  assumes tabf: "\<forall>k<nat max_val. tab ! k = int (f k)"
    and total: "length (counts_expand f (nat max_val)) \<le> n"
  shows "0 \<le> v \<Longrightarrow> v \<le> max_val \<Longrightarrow> length arr = n \<Longrightarrow>
     idx = int (length (counts_expand f (nat v))) \<Longrightarrow>
     take (nat idx) arr = counts_expand f (nat v) \<Longrightarrow>
     \<exists>res. reconstruct arr tab max_val idx v = Inr res \<and> length res = n \<and>
       take (length (counts_expand f (nat max_val))) res = counts_expand f (nat max_val)"
proof (induction "nat (max_val - v)" arbitrary: arr idx v rule: less_induct)
  case less
  show ?case
  proof (cases "v < max_val")
    case False
    with less.prems have "v = max_val" by simp
    with less.prems show ?thesis by (subst reconstruct.simps) simp
  next
    case True
    define c where "c = tab ! nat v"
    have c: "c = int (f (nat v))"
      unfolding c_def using tabf True less.prems(1) by simp
    have suc: "nat (v + 1) = Suc (nat v)" using less.prems(1) by simp
    have nidx: "nat idx = length (counts_expand f (nat v))" using less.prems(4) by simp
    have "length (counts_expand f (Suc (nat v))) \<le> length (counts_expand f (nat max_val))"
      using True less.prems(1) by (intro length_counts_expand_mono) linarith
    then have room: "nat idx + nat c \<le> length arr"
      using total less.prems(3) by (simp add: counts_expand_Suc nidx c)
    let ?arr = "fill_at arr (nat idx) (nat c) v"
    have len: "length ?arr = n" using room less.prems(3) by (simp add: length_fill_at)
    have tk: "take (nat (idx + c)) ?arr = counts_expand f (nat (v + 1))"
    proof -
      have "nat (idx + c) = nat idx + nat c" using c less.prems(4) by (simp add: nat_add_distrib)
      moreover have "take (nat idx + nat c) ?arr = take (nat idx) arr @ replicate (nat c) v"
        using room by (simp add: fill_at_def)
      moreover have "int (nat v) = v" using less.prems(1) by simp
      ultimately show ?thesis
        using less.prems(5) by (simp add: suc counts_expand_Suc c)
    qed
    have nxt: "\<exists>res. reconstruct ?arr tab max_val (idx + c) (v + 1) = Inr res \<and> length res = n \<and>
       take (length (counts_expand f (nat max_val))) res = counts_expand f (nat max_val)"
    proof (rule less.hyps)
      show "nat (max_val - (v + 1)) < nat (max_val - v)" using True by simp
      show "0 \<le> v + 1" using less.prems(1) by simp
      show "v + 1 \<le> max_val" using True by simp
      show "length ?arr = n" by (rule len)
      show "idx + c = int (length (counts_expand f (nat (v + 1))))"
        using less.prems(4) by (simp add: suc counts_expand_Suc c)
      show "take (nat (idx + c)) ?arr = counts_expand f (nat (v + 1))" by (rule tk)
    qed
    show ?thesis
    proof (cases "c > 0")
      case pos: True
      have "reconstruct arr tab max_val idx v = reconstruct ?arr tab max_val (idx + c) (v + 1)"
        using True pos less.prems(4) room
        by (subst reconstruct.simps) (simp add: c_def [symmetric] Let_def emit_fill)
      with nxt show ?thesis by simp
    next
      case False
      with c have c0: "c = 0" by simp
      then have "?arr = arr" by (simp add: fill_at_0)
      moreover have "reconstruct arr tab max_val idx v = reconstruct arr tab max_val idx (v + 1)"
        using True c0 by (subst reconstruct.simps) (simp add: c_def [symmetric] Let_def)
      ultimately show ?thesis using nxt c0 by simp
    qed
  qed
qed

lemma optimized_sort_expand:
  assumes "\<forall>x\<in>set arr. 0 \<le> x \<and> x < MAX_VAL"
  shows "optimized_sort arr (int (length arr))
     = Inr (counts_expand (\<lambda>v. count (mset arr) (int v)) (nat MAX_VAL))"
proof -
  let ?f = "\<lambda>v. count (mset arr) (int v)"
  let ?tab0 = "replicate (nat MAX_VAL) (0::int)"
  have inr: "\<forall>k. nat 0 \<le> k \<and> k < nat (int (length arr)) \<longrightarrow>
      0 \<le> arr ! k \<and> arr ! k < int (length ?tab0)"
    using assms by (simp add: MAX_VAL_def)
  obtain tab where tab: "count_frequencies arr (int (length arr)) 0 ?tab0 = Inr tab"
    "length tab = length ?tab0"
    "\<forall>v<length ?tab0. tab ! v =
        ?tab0 ! v + int (count (mset (drop (nat 0) (take (nat (int (length arr))) arr))) (int v))"
    using count_frequencies_ok [OF _ _ inr] by auto
  have tabf: "\<forall>k<nat MAX_VAL. tab ! k = int (?f k)"
    using tab(3) by simp
  have m: "mset (counts_expand ?f (nat MAX_VAL)) = mset arr"
    using assms by (intro mset_counts_expand) (simp add: MAX_VAL_def)
  then have "size (mset (counts_expand ?f (nat MAX_VAL))) = size (mset arr)" by simp
  then have total: "length (counts_expand ?f (nat MAX_VAL)) = length arr" by simp
  have "\<exists>res. reconstruct arr tab MAX_VAL 0 0 = Inr res \<and> length res = length arr \<and>
       take (length (counts_expand ?f (nat MAX_VAL))) res = counts_expand ?f (nat MAX_VAL)"
    using tabf total
    by (intro reconstruct_ok) (simp_all add: MAX_VAL_def counts_expand_0)
  then obtain res where res: "reconstruct arr tab MAX_VAL 0 0 = Inr res"
    "res = counts_expand ?f (nat MAX_VAL)"
    using total by auto
  show ?thesis
    unfolding optimized_sort_def Let_def using tab(1) res by (simp add: bind_fault_def)
qed

lemma count_frequencies_fault:
  "0 \<le> i \<Longrightarrow> n \<le> int (length arr) \<Longrightarrow>
   (\<exists>k. nat i \<le> k \<and> k < nat n \<and> \<not> (0 \<le> arr ! k \<and> arr ! k < int (length tab))) \<Longrightarrow>
   count_frequencies arr n i tab = Inl IndexOutOfRange"
proof (induction arr n i tab rule: count_frequencies.induct)
  case (1 arr n i tab)
  from "1.prems"(3) obtain k where k: "nat i \<le> k" "k < nat n"
    "\<not> (0 \<le> arr ! k \<and> arr ! k < int (length tab))" by blast
  then have lt: "i < n" by linarith
  show ?case
  proof (cases "0 \<le> arr ! nat i \<and> arr ! nat i < int (length tab)")
    case False
    with lt show ?thesis by (subst count_frequencies.simps) (auto simp: Let_def)
  next
    case True
    let ?tab = "tab[nat (arr ! nat i) := tab ! nat (arr ! nat i) + 1]"
    from True k have "k \<noteq> nat i" by auto
    with k have k': "nat (i + 1) \<le> k" using "1.prems"(1) by linarith
    have "count_frequencies arr n (i + 1) ?tab = Inl IndexOutOfRange"
    proof (rule "1.IH" [OF lt refl True])
      show "0 \<le> i + 1" using "1.prems"(1) by simp
      show "n \<le> int (length arr)" by (rule "1.prems"(2))
      show "\<exists>k. nat (i + 1) \<le> k \<and> k < nat n \<and> \<not> (0 \<le> arr ! k \<and> arr ! k < int (length ?tab))"
        using k k' by auto
    qed
    with lt True show ?thesis by (subst count_frequencies.simps) (simp add: Let_def)
  qed
qed

lemma optimized_sort_fault:
  assumes "\<exists>x\<in>set arr. x < 0 \<or> MAX_VAL \<le> x"
  shows "optimized_sort arr (int (length arr)) = Inl IndexOutOfRange"
proof -
  from assms obtain k where "k < length arr" "arr ! k < 0 \<or> MAX_VAL \<le> arr ! k"
    by (auto simp: in_set_conv_nth)
  then have "\<exists>k. nat 0 \<le> k \<and> k < nat (int (length arr)) \<and>
      \<not> (0 \<le> arr ! k \<and> arr ! k < int (length (replicate (nat MAX_VAL) (0::int))))"
    by (auto simp: MAX_VAL_def)
  then have "count_frequencies arr (int (length arr)) 0 (replicate (nat MAX_VAL) 0)
      = Inl IndexOutOfRange"
    by (intro count_frequencies_fault) simp_all
  then show ?thesis by (simp add: optimized_sort_def bind_fault_def)
qed

subsection \<open>The exchange sort\<close>

lemma length_swap_step: "length (swap_step arr j) = length arr"
  by (simp add: swap_step_def)

lemma mset_swap_step: "j + 1 < length arr \<Longrightarrow> mset (swap_step arr j) = mset arr"
  by (simp add: swap_step_def mset_swap)

lemma nth_swap_step:
  "j + 1 < length arr \<Longrightarrow>
     swap_step arr j ! k =
       (if k = j then min (arr ! j) (arr ! (j + 1))
        else if k = j + 1 then max (arr ! j) (arr ! (j + 1)) else arr ! k)"
  by (auto simp: swap_step_def nth_list_update)

lemma tail_ordered_swap_step:
  assumes "tail_ordered t arr" "j + 1 < t" "j + 1 < length arr"
  shows "tail_ordered t (swap_step arr j)"
  unfolding tail_ordered_def
proof (intro allI impI)
  fix k l
  assume h: "k \<le> l \<and> l < length (swap_step arr j) \<and> t \<le> l"
  then have l: "l < length arr" "t \<le> l" "l \<noteq> j" "l \<noteq> j + 1"
    using assms(2) by (auto simp: length_swap_step)
  have a: "arr ! k \<le> arr ! l" "arr ! j \<le> arr ! l" "arr ! (j + 1) \<le> arr ! l"
    using assms h l unfolding tail_ordered_def by auto
  show "swap_step arr j ! k \<le> swap_step arr j ! l"
    using a l by (auto simp add: nth_swap_step [OF assms(3)] min_le_iff_disj)
qed

lemma prefix_max_swap_step:
  assumes "\<forall>k\<le>j. arr ! k \<le> arr ! j" "j + 1 < length arr"
  shows "\<forall>k\<le>j + 1. swap_step arr j ! k \<le> swap_step arr j ! (j + 1)"
proof (intro allI impI)
  fix k assume "k \<le> j + 1"
  then consider "k = j + 1" | "k = j" | "k < j" by linarith
  then show "swap_step arr j ! k \<le> swap_step arr j ! (j + 1)"
  proof cases
    case 3
    with assms(1) have "arr ! k \<le> arr ! j" by simp
    with 3 show ?thesis by (simp add: nth_swap_step [OF assms(2)])
  qed (simp_all add: nth_swap_step [OF assms(2)])
qed

lemma bubble_inner_step:
  assumes "0 \<le> j" "j < n - i - 1"
  shows "bubble_inner arr n i j = bubble_inner (swap_step arr (nat j)) n i (j + 1)"
proof -
  have "nat (j + 1) = nat j + 1" using assms(1) by simp
  then show ?thesis
    using assms(2) by (subst bubble_inner.simps) (simp add: swap_step_def Let_def)
qed

lemma bubble_inner_inv:
  "0 \<le> i \<Longrightarrow> 0 \<le> j \<Longrightarrow> n = int (length arr) \<Longrightarrow> j \<le> n - i - 1 \<Longrightarrow>
   tail_ordered (nat (n - i)) arr \<Longrightarrow> (\<forall>k\<le>nat j. arr ! k \<le> arr ! nat j) \<Longrightarrow>
   length (bubble_inner arr n i j) = length arr
   \<and> mset (bubble_inner arr n i j) = mset arr
   \<and> tail_ordered (nat (n - i - 1)) (bubble_inner arr n i j)"
proof (induction "nat (n - i - 1 - j)" arbitrary: arr j rule: less_induct)
  case less
  show ?case
  proof (cases "j < n - i - 1")
    case False
    with less.prems have j: "j = n - i - 1" by simp
    have "tail_ordered (nat (n - i - 1)) arr"
      unfolding tail_ordered_def
    proof (intro allI impI)
      fix k l assume h: "k \<le> l \<and> l < length arr \<and> nat (n - i - 1) \<le> l"
      show "arr ! k \<le> arr ! l"
      proof (cases "l = nat (n - i - 1)")
        case True
        with h less.prems(6) j show ?thesis by simp
      next
        case neq: False
        with h have "nat (n - i) \<le> l" by linarith
        with h less.prems(5) show ?thesis unfolding tail_ordered_def by blast
      qed
    qed
    moreover have "bubble_inner arr n i j = arr"
      using False by (subst bubble_inner.simps) simp
    ultimately show ?thesis by simp
  next
    case True
    let ?arr = "swap_step arr (nat j)"
    have in_range: "nat j + 1 < length arr" using True less.prems by linarith
    have below: "nat j + 1 < nat (n - i)" using True less.prems by linarith
    have nj: "nat (j + 1) = nat j + 1" using less.prems(2) by simp
    have "length (bubble_inner ?arr n i (j + 1)) = length ?arr
       \<and> mset (bubble_inner ?arr n i (j + 1)) = mset ?arr
       \<and> tail_ordered (nat (n - i - 1)) (bubble_inner ?arr n i (j + 1))"
    proof (rule less.hyps)
      show "nat (n - i - 1 - (j + 1)) < nat (n - i - 1 - j)" using True by simp
      show "0 \<le> i" by (rule less.prems(1))
      show "0 \<le> j + 1" using less.prems(2) by simp
      show "n = int (length ?arr)" using less.prems(3) by (simp add: length_swap_step)
      show "j + 1 \<le> n - i - 1" using True by simp
      show "tail_ordered (nat (n - i)) ?arr"
        using less.prems(5) below in_range by (rule tail_ordered_swap_step)
      show "\<forall>k\<le>nat (j + 1). ?arr ! k \<le> ?arr ! nat (j + 1)"
        unfolding nj using less.prems(6) in_range by (rule prefix_max_swap_step)
    qed
    then show ?thesis
      using bubble_inner_step [OF less.prems(2) True, of arr]
      by (simp add: length_swap_step mset_swap_step [OF in_range])
  qed
qed

lemma bubble_outer_inv:
  "0 \<le> i \<Longrightarrow> n = int (length arr) \<Longrightarrow> tail_ordered (nat (n - i)) arr \<Longrightarrow>
   mset (bubble_outer arr n i) = mset arr \<and> sorted (bubble_outer arr n i)"
proof (induction "nat (n - 1 - i)" arbitrary: arr i rule: less_induct)
  case less
  show ?case
  proof (cases "i < n - 1")
    case False
    then have t: "nat (n - i) \<le> 1" by simp
    have "sorted arr"
      unfolding sorted_iff_nth_mono
    proof (intro allI impI)
      fix k l assume h: "k \<le> l" "l < length arr"
      show "arr ! k \<le> arr ! l"
      proof (cases "l = 0")
        case True
        with h show ?thesis by simp
      next
        case neq: False
        with t have "nat (n - i) \<le> l" by linarith
        with h less.prems(3) show ?thesis unfolding tail_ordered_def by blast
      qed
    qed
    moreover have "bubble_outer arr n i = arr"
      using False by (subst bubble_outer.simps) simp
    ultimately show ?thesis by simp
  next
    case True
    let ?arr = "bubble_inner arr n i 0"
    have inner: "length ?arr = length arr \<and> mset ?arr = mset arr
        \<and> tail_ordered (nat (n - i - 1)) ?arr"
      using less.prems True by (intro bubble_inner_inv) auto
    have "mset (bubble_outer ?arr n (i + 1)) = mset ?arr \<and> sorted (bubble_outer ?arr n (i + 1))"
    proof (rule less.hyps)
      show "nat (n - 1 - (i + 1)) < nat (n - 1 - i)" using True by simp
      show "0 \<le> i + 1" using less.prems(1) by simp
      show "n = int (length ?arr)" using inner less.prems(2) by simp
      show "tail_ordered (nat (n - (i + 1))) ?arr" using inner by (simp add: diff_diff_eq)
    qed
    moreover have "bubble_outer arr n i = bubble_outer ?arr n (i + 1)"
      using True by (subst bubble_outer.simps) simp
    ultimately show ?thesis using inner by simp
  qed
qed

lemma bubble_sort_sorts:
  "mset (bubble_sort arr (int (length arr))) = mset arr
   \<and> sorted (bubble_sort arr (int (length arr)))"
  unfolding bubble_sort_def
  by (rule bubble_outer_inv) (simp_all add: tail_ordered_def)

text \<open>
  C2: for every array of length \<open>N \<ge> 0\<close> whose values all lie in \<open>[0, 32768)\<close>,
  \<open>bubble_sort\<close> and \<open>optimized_sort\<close> (which then ends without a fault) both leave a
  non-decreasing permutation of the input.
\<close>

theorem C2_both_sorts_give_sorted_permutation:
  assumes "\<forall>x\<in>set arr. 0 \<le> x \<and> x < 32768"
  shows "sorted (bubble_sort arr (int (length arr)))
     \<and> mset (bubble_sort arr (int (length arr))) = mset arr
     \<and> (\<exists>res. optimized_sort arr (int (length arr)) = Inr res
          \<and> sorted res \<and> mset res = mset arr)"
proof -
  have r: "\<forall>x\<in>set arr. 0 \<le> x \<and> x < MAX_VAL"
    using assms by (simp add: MAX_VAL_def)
  have "mset (counts_expand (\<lambda>v. count (mset arr) (int v)) (nat MAX_VAL)) = mset arr"
    using assms by (intro mset_counts_expand) (simp add: MAX_VAL_def)
  then show ?thesis
    using bubble_sort_sorts [of arr] optimized_sort_expand [OF r] sorted_counts_expand
    by simp
qed

theorem C2_both_sorts_witness:
  "bubble_sort [5, 3, 9, 1, 1, 0, 32767] 7 = [0, 1, 1, 3, 5, 9, 32767]
   \<and> optimized_sort [5, 3, 9, 1, 1, 0, 32767] 7 = Inr [0, 1, 1, 3, 5, 9, 32767]"
proof -
  let ?arr = "[5, 3, 9, 1, 1, 0, 32767 :: int]"
  have h: "\<forall>x\<in>set ?arr. 0 \<le> x \<and> x < 32768" by simp
  have len: "int (length ?arr) = 7" by simp
  have s: "sorted [0, 1, 1, 3, 5, 9, 32767 :: int]" by simp
  have m: "mset [0, 1, 1, 3, 5, 9, 32767 :: int] = mset ?arr" by simp
  from C2_both_sorts_give_sorted_permutation [OF h]
  obtain res where res: "sorted (bubble_sort ?arr 7)" "mset (bubble_sort ?arr 7) = mset ?arr"
    "optimized_sort ?arr 7 = Inr res" "sorted res" "mset res = mset ?arr"
    unfolding len by blast
  have "sort ?arr = bubble_sort ?arr 7" using res(2,1) by (rule properties_for_sort)
  moreover have "sort ?arr = res" using res(5,4) by (rule properties_for_sort)
  moreover have "sort ?arr = [0, 1, 1, 3, 5, 9, 32767]" using m s by (rule properties_for_sort)
  ultimately show ?thesis using res(3) by simp
qed

text \<open>
  C3, as stated, fails: with the element 32768, or with the element \<open>-1\<close>, in the input
  \<open>optimized_sort\<close> indexes its frequency table out of range.
\<close>

theorem C3_out_of_domain_value_indexes_out_of_range:
  "optimized_sort [5, 32768, 3] 3 = Inl IndexOutOfRange
   \<and> optimized_sort [5, - 1, 3] 3 = Inl IndexOutOfRange"
  by (simp add: optimized_sort_def bind_fault_def count_frequencies.simps MAX_VAL_def)

text \<open>
  C3, amended: \<open>optimized_sort\<close> has no domain check. For every input that contains some
  value outside \<open>[0, 32768)\<close> its tally loop indexes the frequency table out of range;
  it neither reports a domain error nor falls back to a comparison sort.
\<close>

theorem C3_optimized_sort_has_no_domain_check:
  "(\<exists>x\<in>set arr. x < 0 \<or> 32768 \<le> x) \<Longrightarrow>
     optimized_sort arr (int (length arr)) = Inl IndexOutOfRange"
  using optimized_sort_fault [of arr] by (simp add: MAX_VAL_def)

theorem C3_optimized_sort_has_no_domain_check_witness:
  "(\<exists>x\<in>set [7, 40000, 2 :: int]. x < 0 \<or> 32768 \<le> x)
   \<and> optimized_sort [7, 40000, 2] (int (length [7, 40000, 2 :: int])) = Inl IndexOutOfRange"
proof -
  have h: "\<exists>x\<in>set [7, 40000, 2 :: int]. x < 0 \<or> 32768 \<le> x" by simp
  from C3_optimized_sort_has_no_domain_check [OF h] h show ?thesis by blast
qed

subsection \<open>The input generator\<close>

lemma lcg_value_range: "0 \<le> lcg_value seed \<and> lcg_value seed < 32768"
proof -
  have "drop_bit 16 seed AND 0x7fff \<le> (0x7fff :: u32)"
    by (rule word_and_le1)
  then have "uint (drop_bit 16 seed AND 0x7fff) \<le> uint (0x7fff :: u32)"
    by (simp only: word_le_def)
  then show ?thesis by (simp add: lcg_value_def)
qed

lemma in_range_upto_update:
  assumes "in_range_upto arr m" "0 \<le> v \<and> v < 32768"
  shows "in_range_upto (arr[m := v]) (Suc m)"
  unfolding in_range_upto_def
proof (intro allI impI)
  fix k assume "k < length (arr[m := v])" "k < Suc m"
  then show "0 \<le> arr[m := v] ! k \<and> arr[m := v] ! k < 32768"
    using assms by (cases "k = m") (auto simp: in_range_upto_def)
qed

lemma fill_baseline_range:
  "0 \<le> i \<Longrightarrow> in_range_upto arr (nat i) \<Longrightarrow>
     length (fst (fill_baseline arr n i seed)) = length arr
     \<and> in_range_upto (fst (fill_baseline arr n i seed)) (nat (max i n))"
proof (induction "nat (n - i)" arbitrary: arr i seed rule: less_induct)
  case less
  show ?case
  proof (cases "i < n")
    case False
    then have "max i n = i" by simp
    with False less.prems show ?thesis by (subst (1 2) fill_baseline.simps) simp
  next
    case True
    let ?seed = "lcg_next seed"
    let ?arr = "arr[nat i := lcg_value ?seed]"
    have suc: "nat (i + 1) = Suc (nat i)" using less.prems(1) by simp
    have "length (fst (fill_baseline ?arr n (i + 1) ?seed)) = length ?arr
       \<and> in_range_upto (fst (fill_baseline ?arr n (i + 1) ?seed)) (nat (max (i + 1) n))"
    proof (rule less.hyps)
      show "nat (n - (i + 1)) < nat (n - i)" using True by simp
      show "0 \<le> i + 1" using less.prems(1) by simp
      show "in_range_upto ?arr (nat (i + 1))"
        unfolding suc using less.prems(2) lcg_value_range by (rule in_range_upto_update)
    qed
    moreover have "max (i + 1) n = max i n" using True by simp
    moreover have "fill_baseline arr n i seed = fill_baseline ?arr n (i + 1) ?seed"
      using True by (subst fill_baseline.simps) (simp add: Let_def)
    ultimately show ?thesis by simp
  qed
qed

lemma fill_step_range:
  assumes "0 \<le> k" "in_range_upto (fst st) (nat (min k n))"
  shows "length (fst (fill_step n k st)) = length (fst st)
     \<and> in_range_upto (fst (fill_step n k st)) (nat (min (k + 1) n))"
proof (cases "k < n")
  case False
  then have "min (k + 1) n = min k n" by simp
  with False assms show ?thesis by (simp add: fill_step_def)
next
  case True
  then have m: "min k n = k" "min (k + 1) n = k + 1" "nat (k + 1) = Suc (nat k)"
    using assms(1) by auto
  have "in_range_upto ((fst st)[nat k := lcg_value (lcg_next (snd st))]) (Suc (nat k))"
    using assms(2) lcg_value_range unfolding m by (rule in_range_upto_update)
  with True show ?thesis by (simp add: fill_step_def Let_def m)
qed

lemma fill_unrolled_range:
  "0 \<le> i \<Longrightarrow> in_range_upto arr (nat (min i n)) \<Longrightarrow>
     length (fst (fill_unrolled arr n i seed)) = length arr
     \<and> in_range_upto (fst (fill_unrolled arr n i seed)) (nat n)"
proof (induction "nat (n - i)" arbitrary: arr i seed rule: less_induct)
  case less
  show ?case
  proof (cases "i < n")
    case False
    then have "min i n = n" by simp
    with False less.prems show ?thesis by (subst (1 2) fill_unrolled.simps) simp
  next
    case True
    let ?seed = "lcg_next seed"
    let ?st0 = "(arr[nat i := lcg_value ?seed], ?seed)"
    let ?st1 = "fill_step n (i + 1) ?st0"
    let ?st2 = "fill_step n (i + 2) ?st1"
    let ?st3 = "fill_step n (i + 3) ?st2"
    have m: "min i n = i" "nat (min (i + 1) n) = Suc (nat i)"
      using True less.prems(1) by auto
    have r0: "length (fst ?st0) = length arr \<and> in_range_upto (fst ?st0) (nat (min (i + 1) n))"
      using in_range_upto_update [OF less.prems(2) [unfolded m] lcg_value_range, of ?seed]
      by (simp add: m)
    have r1: "length (fst ?st1) = length arr \<and> in_range_upto (fst ?st1) (nat (min (i + 2) n))"
      using fill_step_range [of "i + 1" ?st0 n] r0 less.prems(1) by (simp add: add.assoc)
    have r2: "length (fst ?st2) = length arr \<and> in_range_upto (fst ?st2) (nat (min (i + 3) n))"
      using fill_step_range [of "i + 2" ?st1 n] r1 less.prems(1) by (simp add: add.assoc)
    have r3: "length (fst ?st3) = length arr \<and> in_range_upto (fst ?st3) (nat (min (i + 4) n))"
      using fill_step_range [of "i + 3" ?st2 n] r2 less.prems(1) by (simp add: add.assoc)
    have "length (fst (fill_unrolled (fst ?st3) n (i + 4) (snd ?st3))) = length (fst ?st3)
       \<and> in_range_upto (fst (fill_unrolled (fst ?st3) n (i + 4) (snd ?st3))) (nat n)"
    proof (rule less.hyps)
      show "nat (n - (i + 4)) < nat (n - i)" using True by simp
      show "0 \<le> i + 4" using less.prems(1) by simp
      show "in_range_upto (fst ?st3) (nat (min (i + 4) n))" using r3 by simp
    qed
    moreover have "fill_unrolled arr n i seed = fill_unrolled (fst ?st3) n (i + 4) (snd ?st3)"
      using True by (subst fill_unrolled.simps) (simp add: Let_def)
    ultimately show ?thesis using r3 by simp
  qed
qed

lemma in_range_upto_all:
  assumes "in_range_upto arr m" "length arr \<le> m"
  shows "\<forall>x\<in>set arr. 0 \<le> x \<and> x < 32768"
  using assms by (auto simp: in_range_upto_def in_set_conv_nth)

text \<open>
  C10: every value the generator stores, in the plain loop of the baseline driver and in
  the unrolled loop of the optimized driver, for every seed (12345 in the source) and
  every \<open>N\<close> (10000 in the source), lies in \<open>[0, 32768)\<close>; so the tally loop of
  \<open>optimized_sort\<close> on the generated array ends without leaving the table.
\<close>

theorem C10_generated_values_index_the_table_in_range:
  assumes "length buf = nat n"
  shows "(\<forall>x\<in>set (fst (fill_baseline buf n 0 seed)). 0 \<le> x \<and> x < 32768)
     \<and> (\<forall>x\<in>set (fst (fill_unrolled buf n 0 seed)). 0 \<le> x \<and> x < 32768)
     \<and> (\<exists>tab. count_frequencies (fst (fill_unrolled buf n 0 seed)) n 0
                 (replicate (nat MAX_VAL) 0) = Inr tab)"
proof -
  let ?b = "fst (fill_baseline buf n 0 seed)"
  let ?u = "fst (fill_unrolled buf n 0 seed)"
  have b: "length ?b = length buf \<and> in_range_upto ?b (nat (max 0 n))"
    by (rule fill_baseline_range) (simp_all add: in_range_upto_def)
  have u: "length ?u = length buf \<and> in_range_upto ?u (nat n)"
    by (rule fill_unrolled_range) (simp_all add: in_range_upto_def)
  have rb: "\<forall>x\<in>set ?b. 0 \<le> x \<and> x < 32768"
    using b assms by (intro in_range_upto_all [of ?b "nat (max 0 n)"]) auto
  have ru: "\<forall>x\<in>set ?u. 0 \<le> x \<and> x < 32768"
    using u assms by (intro in_range_upto_all [of ?u "nat n"]) auto
  have "\<exists>tab'. count_frequencies ?u n 0 (replicate (nat MAX_VAL) 0) = Inr tab'
      \<and> length tab' = length (replicate (nat MAX_VAL) (0::int))
      \<and> (\<forall>v<length (replicate (nat MAX_VAL) (0::int)). tab' ! v =
            replicate (nat MAX_VAL) 0 ! v
              + int (count (mset (drop (nat 0) (take (nat n) ?u))) (int v)))"
  proof (rule count_frequencies_ok)
    show "(0::int) \<le> 0" by simp
    show "n \<le> int (length ?u)" using u assms by simp
    show "\<forall>k. nat 0 \<le> k \<and> k < nat n \<longrightarrow>
        0 \<le> ?u ! k \<and> ?u ! k < int (length (replicate (nat MAX_VAL) (0::int)))"
      using u assms by (auto simp: in_range_upto_def MAX_VAL_def)
  qed
  then show ?thesis using rb ru by blast
qed

theorem C10_generated_values_witness:
  "length [0, 0, 0, 0, 0, 0 :: int] = nat 6
   \<and> fst (fill_baseline [0, 0, 0, 0, 0, 0] 6 0 12345) = [21468, 9988, 22117, 3498, 16927, 16045]
   \<and> fst (fill_unrolled [0, 0, 0, 0, 0, 0] 6 0 12345) = [21468, 9988, 22117, 3498, 16927, 16045]
   \<and> list_all (\<lambda>x. 0 \<le> x \<and> x < 32768) [21468, 9988, 22117, 3498, 16927, 16045 :: int]
   \<and> (\<exists>tab. count_frequencies [21468, 9988, 22117, 3498, 16927, 16045] 6 0
                (replicate (nat MAX_VAL) 0) = Inr tab)"
proof -
  have l: "length [0, 0, 0, 0, 0, 0 :: int] = nat 6" by simp
  have b: "fst (fill_baseline [0, 0, 0, 0, 0, 0] 6 0 12345)
      = [21468, 9988, 22117, 3498, 16927, 16045]"
    by (simp add: fill_baseline.simps lcg_next_def lcg_value_def)
  have u: "fst (fill_unrolled [0, 0, 0, 0, 0, 0] 6 0 12345)
      = [21468, 9988, 22117, 3498, 16927, 16045]"
    by (simp add: fill_unrolled.simps fill_step_def lcg_next_def lcg_value_def)
  show ?thesis
    using C10_generated_values_index_the_table_in_range [OF l, of 12345] l
    unfolding b u list_all_iff by blast
qed

subsection \<open>The checksum reductions\<close>

text \<open>
  C7 fails on the code of the sort kernel: for \<open>N = 5\<close> and the sorted array
  \<open>1, 2, 3, 4, 5\<close> the sequential reduction gives 55, and the unrolled reduction gives 30,
  the contribution \<open>5 * 5\<close> of the remainder element being overwritten.
\<close>

theorem C7_sort_checksum_drops_remainder:
  "checksum_baseline [1, 2, 3, 4, 5] 5 = 55 \<and> checksum_optimized [1, 2, 3, 4, 5] 5 = 30"
  by (simp add: checksum_baseline_def checksum_loop.simps
      checksum_optimized_def checksum_unrolled_loop.simps checksum_remainder.simps)

section \<open>Results: prime kernel\<close>

lemma no_divisor_inD: "no_divisor_in n a b \<Longrightarrow> a \<le> d \<Longrightarrow> d < b \<Longrightarrow> n mod d \<noteq> 0"
  by (simp add: no_divisor_in_def)

lemma no_divisor_inI: "(\<And>d. a \<le> d \<Longrightarrow> d < b \<Longrightarrow> n mod d \<noteq> 0) \<Longrightarrow> no_divisor_in n a b"
  by (simp add: no_divisor_in_def)

lemma no_odd_divisorD:
  "no_odd_divisor n i limit \<Longrightarrow> 0 \<le> k \<Longrightarrow> i + 2 * k \<le> limit \<Longrightarrow> n mod (i + 2 * k) \<noteq> 0"
  by (simp add: no_odd_divisor_def)

lemma no_odd_divisorI:
  "(\<And>k. 0 \<le> k \<Longrightarrow> i + 2 * k \<le> limit \<Longrightarrow> n mod (i + 2 * k) \<noteq> 0) \<Longrightarrow> no_odd_divisor n i limit"
  by (simp add: no_odd_divisor_def)

lemma no_divisor_in_step:
  assumes "i < n" "n mod i \<noteq> 0"
  shows "no_divisor_in n i n \<longleftrightarrow> no_divisor_in n (i + 1) n"
proof
  assume h: "no_divisor_in n i n"
  show "no_divisor_in n (i + 1) n"
  proof (rule no_divisor_inI)
    fix d assume "i + 1 \<le> d" "d < n"
    then have "i \<le> d" by simp
    with h show "n mod d \<noteq> 0" using \<open>d < n\<close> by (rule no_divisor_inD)
  qed
next
  assume h: "no_divisor_in n (i + 1) n"
  show "no_divisor_in n i n"
  proof (rule no_divisor_inI)
    fix d assume d: "i \<le> d" "d < n"
    show "n mod d \<noteq> 0"
    proof (cases "d = i")
      case True
      with assms(2) show ?thesis by simp
    next
      case False
      with d have "i + 1 \<le> d" by simp
      with h show ?thesis using d(2) by (rule no_divisor_inD)
    qed
  qed
qed

lemma is_prime_loop_iff: "is_prime_loop n i \<longleftrightarrow> no_divisor_in n i n"
proof (induction n i rule: is_prime_loop.induct)
  case (1 n i)
  show ?case
  proof (cases "i < n")
    case False
    then have "no_divisor_in n i n" by (intro no_divisor_inI) simp
    with False show ?thesis by (subst is_prime_loop.simps) simp
  next
    case True
    show ?thesis
    proof (cases "n mod i = 0")
      case zero: True
      have "\<not> no_divisor_in n i n"
      proof
        assume "no_divisor_in n i n"
        then have "n mod i \<noteq> 0" using order_refl True by (rule no_divisor_inD)
        with zero show False by simp
      qed
      with True zero show ?thesis by (subst is_prime_loop.simps) simp
    next
      case False
      have "is_prime_loop n i = is_prime_loop n (i + 1)"
        using True False by (subst is_prime_loop.simps) simp
      also have "\<dots> = no_divisor_in n (i + 1) n" using True False by (rule "1.IH")
      also have "\<dots> = no_divisor_in n i n" using no_divisor_in_step [OF True False] by simp
      finally show ?thesis .
    qed
  qed
qed

lemma is_prime_iff: "is_prime n \<longleftrightarrow> 2 \<le> n \<and> no_divisor_in n 2 n"
  by (simp add: is_prime_def is_prime_loop_iff)

lemma sqrt_search_spec:
  "0 \<le> r \<Longrightarrow> r * r \<le> n \<Longrightarrow>
     r \<le> sqrt_search n r \<and> sqrt_search n r * sqrt_search n r \<le> n
     \<and> n < (sqrt_search n r + 1) * (sqrt_search n r + 1)"
proof (induction n r rule: sqrt_search.induct)
  case (1 n r)
  show ?case
  proof (cases "(r + 1) * (r + 1) \<le> n")
    case True
    have eq: "sqrt_search n r = sqrt_search n (r + 1)"
      using True by (subst sqrt_search.simps) simp
    have "0 \<le> r + 1" using "1.prems"(1) by simp
    with True have "r + 1 \<le> sqrt_search n (r + 1)
        \<and> sqrt_search n (r + 1) * sqrt_search n (r + 1) \<le> n
        \<and> n < (sqrt_search n (r + 1) + 1) * (sqrt_search n (r + 1) + 1)"
      using True by (intro "1.IH")
    then show ?thesis unfolding eq by simp
  next
    case False
    then have "sqrt_search n r = r" by (subst sqrt_search.simps) simp
    with False "1.prems" show ?thesis by simp
  qed
qed

lemma floor_sqrt_spec:
  assumes "0 \<le> n"
  shows "0 \<le> floor_sqrt n \<and> floor_sqrt n * floor_sqrt n \<le> n
     \<and> n < (floor_sqrt n + 1) * (floor_sqrt n + 1)"
  using sqrt_search_spec [of 0 n] assms by (simp add: floor_sqrt_def)

lemma no_odd_divisor_step:
  assumes "i \<le> limit" "n mod i \<noteq> 0"
  shows "no_odd_divisor n i limit \<longleftrightarrow> no_odd_divisor n (i + 2) limit"
proof
  assume h: "no_odd_divisor n i limit"
  show "no_odd_divisor n (i + 2) limit"
  proof (rule no_odd_divisorI)
    fix k :: int assume k: "0 \<le> k" "i + 2 + 2 * k \<le> limit"
    have "0 \<le> k + 1" "i + 2 * (k + 1) \<le> limit" using k by simp_all
    with h have "n mod (i + 2 * (k + 1)) \<noteq> 0" by (rule no_odd_divisorD)
    then show "n mod (i + 2 + 2 * k) \<noteq> 0" by (simp add: algebra_simps)
  qed
next
  assume h: "no_odd_divisor n (i + 2) limit"
  show "no_odd_divisor n i limit"
  proof (rule no_odd_divisorI)
    fix k :: int assume k: "0 \<le> k" "i + 2 * k \<le> limit"
    show "n mod (i + 2 * k) \<noteq> 0"
    proof (cases "k = 0")
      case True
      with assms(2) show ?thesis by simp
    next
      case False
      with k have "0 \<le> k - 1" "i + 2 + 2 * (k - 1) \<le> limit" by simp_all
      with h have "n mod (i + 2 + 2 * (k - 1)) \<noteq> 0" by (rule no_odd_divisorD)
      then show ?thesis by (simp add: algebra_simps)
    qed
  qed
qed

lemma is_prime_optimized_loop_iff:
  "is_prime_optimized_loop n limit i \<longleftrightarrow> no_odd_divisor n i limit"
proof (induction n limit i rule: is_prime_optimized_loop.induct)
  case (1 n limit i)
  show ?case
  proof (cases "i \<le> limit")
    case False
    have "no_odd_divisor n i limit"
    proof (rule no_odd_divisorI)
      fix k :: int assume "0 \<le> k" "i + 2 * k \<le> limit"
      with False have False by linarith
      then show "n mod (i + 2 * k) \<noteq> 0" ..
    qed
    with False show ?thesis by (subst is_prime_optimized_loop.simps) simp
  next
    case True
    show ?thesis
    proof (cases "n mod i = 0")
      case zero: True
      have "\<not> no_odd_divisor n i limit"
      proof
        assume "no_odd_divisor n i limit"
        moreover have "(0::int) \<le> 0" "i + 2 * 0 \<le> limit" using True by simp_all
        ultimately have "n mod (i + 2 * 0) \<noteq> 0" by (rule no_odd_divisorD)
        with zero show False by simp
      qed
      with True zero show ?thesis by (subst is_prime_optimized_loop.simps) simp
    next
      case False
      have "is_prime_optimized_loop n limit i = is_prime_optimized_loop n limit (i + 2)"
        using True False by (subst is_prime_optimized_loop.simps) simp
      also have "\<dots> = no_odd_divisor n (i + 2) limit" using True False by (rule "1.IH")
      also have "\<dots> = no_odd_divisor n i limit"
        using no_odd_divisor_step [OF True False] by simp
      finally show ?thesis .
    qed
  qed
qed

lemma odd_divisor_below_root:
  assumes n: "3 \<le> (n::int)" "n mod 2 \<noteq> 0"
    and d: "2 \<le> d" "d < n" "n mod d = 0"
    and r: "0 \<le> r" "n < (r + 1) * (r + 1)"
  shows "\<exists>k. 0 \<le> k \<and> 3 + 2 * k \<le> r \<and> n mod (3 + 2 * k) = 0"
proof -
  define e where "e = n div d"
  have "d * (n div d) + n mod d = n" by simp
  then have nde: "n = d * e" using d(3) by (simp add: e_def)
  have e2: "2 \<le> e"
  proof (rule ccontr)
    assume "\<not> 2 \<le> e"
    then have "e \<le> 1" by simp
    then have "d * e \<le> d * 1" using d(1) by (intro mult_left_mono) auto
    with nde d(2) show False by simp
  qed
  define m where "m = min d e"
  have m2: "2 \<le> m" using d(1) e2 by (simp add: m_def)
  have "n mod e = 0" unfolding nde by simp
  then have mdvd: "n mod m = 0"
    unfolding m_def min_def using d(3) by simp
  have "m * m \<le> d * e"
    unfolding m_def using d(1) e2 by (intro mult_mono) auto
  then have mm: "m * m \<le> n" using nde by simp
  have mr: "m \<le> r"
  proof (rule ccontr)
    assume "\<not> m \<le> r"
    then have "r + 1 \<le> m" by simp
    then have "(r + 1) * (r + 1) \<le> m * m" using r(1) by (intro mult_mono) auto
    with mm r(2) show False by simp
  qed
  have modd: "m mod 2 = 1"
  proof (rule ccontr)
    assume "m mod 2 \<noteq> 1"
    then have "2 dvd m" by presburger
    moreover have "m dvd n" using mdvd by (simp add: dvd_eq_mod_eq_0)
    ultimately have "2 dvd n" by (rule dvd_trans)
    with n(2) show False by (simp add: dvd_eq_mod_eq_0)
  qed
  define k where "k = (m - 3) div 2"
  have km: "m = 3 + 2 * k" and k0: "0 \<le> k" using modd m2 unfolding k_def by presburger+
  have "0 \<le> k \<and> 3 + 2 * k \<le> r \<and> n mod (3 + 2 * k) = 0"
    using k0 mr mdvd unfolding km by simp
  then show ?thesis ..
qed

lemma odd_no_divisor_iff:
  assumes n3: "3 \<le> n" and odd: "n mod 2 \<noteq> 0"
  shows "no_odd_divisor n 3 (floor_sqrt n) \<longleftrightarrow> no_divisor_in n 2 n"
proof
  define r where "r = floor_sqrt n"
  have r: "0 \<le> r" "r * r \<le> n" "n < (r + 1) * (r + 1)"
    using floor_sqrt_spec [of n] n3 by (simp_all add: r_def)
  {
    assume h: "no_odd_divisor n 3 r"
    have "no_divisor_in n 2 n"
    proof (rule no_divisor_inI)
      fix d assume d: "2 \<le> d" "d < n"
      show "n mod d \<noteq> 0"
      proof
        assume "n mod d = 0"
        with odd_divisor_below_root [OF n3 odd d _ r(1,3)]
        obtain k where k: "0 \<le> k" "3 + 2 * k \<le> r" "n mod (3 + 2 * k) = 0" by auto
        from h k(1,2) have "n mod (3 + 2 * k) \<noteq> 0" by (rule no_odd_divisorD)
        with k(3) show False by simp
      qed
    qed
  }
  then show "no_odd_divisor n 3 (floor_sqrt n) \<Longrightarrow> no_divisor_in n 2 n"
    by (simp add: r_def)
  {
    assume h: "no_divisor_in n 2 n"
    have "no_odd_divisor n 3 r"
    proof (rule no_odd_divisorI)
      fix k :: int assume k: "0 \<le> k" "3 + 2 * k \<le> r"
      define d where "d = 3 + 2 * k"
      have d: "3 \<le> d" "d \<le> r" using k by (simp_all add: d_def)
      have "d * 3 \<le> d * d" using d(1) by (intro mult_left_mono) auto
      moreover have "d * d \<le> r * r" using d by (intro mult_mono) auto
      ultimately have "d * 3 \<le> n" using r(2) by simp
      then have "d < n" using d(1) by simp
      moreover have "2 \<le> d" using d(1) by simp
      ultimately have "n mod d \<noteq> 0" using h by (intro no_divisor_inD [of n 2 n d])
      then show "n mod (3 + 2 * k) \<noteq> 0" by (simp add: d_def)
    qed
  }
  then show "no_divisor_in n 2 n \<Longrightarrow> no_odd_divisor n 3 (floor_sqrt n)"
    by (simp add: r_def)
qed

lemma is_prime_optimized_eq: "is_prime_optimized n = is_prime n"
proof (cases "n < 2")
  case True
  then show ?thesis by (simp add: is_prime_optimized_def is_prime_def)
next
  case ge2: False
  show ?thesis
  proof (cases "n = 2")
    case True
    then show ?thesis
      by (simp add: is_prime_optimized_def is_prime_def is_prime_loop.simps)
  next
    case ne2: False
    show ?thesis
    proof (cases "n mod 2 = 0")
      case True
      have "\<not> no_divisor_in n 2 n"
      proof
        assume "no_divisor_in n 2 n"
        moreover have "(2::int) \<le> 2" "2 < n" using ge2 ne2 by simp_all
        ultimately have "n mod 2 \<noteq> 0" by (rule no_divisor_inD)
        with True show False by simp
      qed
      with True ge2 ne2 show ?thesis
        by (simp add: is_prime_optimized_def is_prime_iff)
    next
      case odd: False
      have n3: "3 \<le> n" using ge2 ne2 by simp
      show ?thesis
        using ge2 ne2 odd odd_no_divisor_iff [OF n3 odd]
        by (simp add: is_prime_optimized_def is_prime_iff is_prime_optimized_loop_iff Let_def)
    qed
  qed
qed

lemma even_not_prime:
  assumes "2 < n" "n mod 2 = 0"
  shows "\<not> is_prime n"
proof
  assume "is_prime n"
  then have "no_divisor_in n 2 n" by (simp add: is_prime_iff)
  moreover have "(2::int) \<le> 2" by simp
  ultimately have "n mod 2 \<noteq> 0" using assms(1) by (rule no_divisor_inD)
  with assms(2) show False by simp
qed

lemma prime_scan_stop: "\<not> i < bound \<Longrightarrow> prime_scan bound i acc = acc"
  by (subst prime_scan.simps) simp

lemma prime_scan_step:
  "i < bound \<Longrightarrow> prime_scan bound i acc = prime_scan bound (i + 1) (tally (is_prime i) i acc)"
  by (subst prime_scan.simps) simp

lemma prime_scan_even:
  assumes "i < bound" "2 < i" "i mod 2 = 0"
  shows "prime_scan bound i acc = prime_scan bound (i + 1) acc"
  using prime_scan_step [OF assms(1)] even_not_prime [OF assms(2,3)]
  by (simp add: tally_def)

lemma prime_scan_optimized_eq:
  "3 \<le> i \<Longrightarrow> i mod 2 = 1 \<Longrightarrow> prime_scan_optimized bound i acc = prime_scan bound i acc"
proof (induction "nat (bound - i)" arbitrary: i acc rule: less_induct)
  case less
  show ?case
  proof (cases "i < bound")
    case False
    then show ?thesis
      by (subst prime_scan_optimized.simps) (simp add: prime_scan_stop)
  next
    case True
    define acc1 where "acc1 = tally (is_prime i) i acc"
    define acc2 where "acc2 = tally (i + 2 < bound \<and> is_prime (i + 2)) (i + 2) acc1"
    have e1: "2 < i + 1" "(i + 1) mod 2 = 0" using less.prems by presburger+
    have e3: "2 < i + 3" "(i + 3) mod 2 = 0" using less.prems by presburger+
    have o4: "3 \<le> i + 4" "(i + 4) mod 2 = 1" using less.prems by presburger+
    have i4: "i + 2 + 2 = i + 4" by simp
    have a2: "i + 1 + 1 = i + 2" by simp
    have a3: "i + 2 + 1 = i + 3" by simp
    have a4: "i + 3 + 1 = i + 4" by simp
    have "prime_scan_optimized bound i acc = prime_scan_optimized bound (i + 4) acc2"
      using True
      by (subst prime_scan_optimized.simps)
         (simp only: Let_def is_prime_optimized_eq acc1_def acc2_def if_True i4)
    also have "\<dots> = prime_scan bound (i + 4) acc2"
      using True o4 by (intro less.hyps) auto
    also have "\<dots> = prime_scan bound i acc"
    proof (cases "i + 1 < bound")
      case False
      then have "acc2 = acc1" by (simp add: acc2_def tally_def)
      moreover have "prime_scan bound i acc = prime_scan bound (i + 1) acc1"
        unfolding acc1_def using True by (rule prime_scan_step)
      moreover have "prime_scan bound (i + 1) acc1 = acc1"
        using False by (rule prime_scan_stop)
      moreover have "prime_scan bound (i + 4) acc1 = acc1"
        using False by (intro prime_scan_stop) simp
      ultimately show ?thesis by simp
    next
      case b1: True
      have "prime_scan bound i acc = prime_scan bound (i + 1) acc1"
        unfolding acc1_def using True by (rule prime_scan_step)
      also have "\<dots> = prime_scan bound (i + 1 + 1) acc1"
        using b1 e1 by (rule prime_scan_even)
      finally have s1: "prime_scan bound i acc = prime_scan bound (i + 2) acc1"
        unfolding a2 .
      show ?thesis
      proof (cases "i + 2 < bound")
        case False
        then have "acc2 = acc1" by (simp add: acc2_def tally_def)
        moreover have "prime_scan bound (i + 2) acc1 = acc1"
          using False by (rule prime_scan_stop)
        moreover have "prime_scan bound (i + 4) acc1 = acc1"
          using False by (intro prime_scan_stop) simp
        ultimately show ?thesis using s1 by simp
      next
        case b2: True
        have "acc2 = tally (is_prime (i + 2)) (i + 2) acc1"
          using b2 by (simp add: acc2_def)
        moreover have "prime_scan bound (i + 2) acc1
            = prime_scan bound (i + 2 + 1) (tally (is_prime (i + 2)) (i + 2) acc1)"
          using b2 by (rule prime_scan_step)
        ultimately have s2: "prime_scan bound (i + 2) acc1 = prime_scan bound (i + 3) acc2"
          unfolding a3 by simp
        show ?thesis
        proof (cases "i + 3 < bound")
          case False
          then have "prime_scan bound (i + 3) acc2 = acc2" by (rule prime_scan_stop)
          moreover have "prime_scan bound (i + 4) acc2 = acc2"
            using False by (intro prime_scan_stop) simp
          ultimately show ?thesis using s1 s2 by simp
        next
          case b3: True
          have "prime_scan bound (i + 3) acc2 = prime_scan bound (i + 3 + 1) acc2"
            using b3 e3 by (rule prime_scan_even)
          then have "prime_scan bound (i + 3) acc2 = prime_scan bound (i + 4) acc2"
            unfolding a4 .
          with s1 s2 show ?thesis by simp
        qed
      qed
    qed
    finally show ?thesis .
  qed
qed

lemma prime_sieve_mains_agree:
  assumes "3 \<le> bound"
  shows "prime_sieve_optimized_main bound = prime_sieve_baseline_main bound"
proof -
  have "is_prime 2" by (simp add: is_prime_def is_prime_loop.simps)
  moreover have "(2::int) < bound" using assms by simp
  ultimately have "prime_scan bound 2 (0, 0) = prime_scan bound 3 (1, 2)"
    using prime_scan_step [of 2 bound "(0, 0)"] by (simp add: tally_def)
  moreover have "prime_scan_optimized bound 3 (1, 2) = prime_scan bound 3 (1, 2)"
    by (rule prime_scan_optimized_eq) simp_all
  ultimately show ?thesis
    by (simp add: prime_sieve_optimized_main_def prime_sieve_baseline_main_def)
qed

text \<open>
  C5: the two primality tests classify every integer below 100000 identically (in the
  model, every integer), 0 and 1 are not prime and 2 is prime for both, and the optimized
  driver's loop over odd numbers gives the same pair of count and sum as the baseline's
  full scan below 100000.
\<close>

theorem C5_prime_tests_and_scans_agree:
  "(\<forall>n. n < MAX_bound \<longrightarrow> is_prime_optimized n = is_prime n)
   \<and> \<not> is_prime 0 \<and> \<not> is_prime 1 \<and> is_prime 2
   \<and> \<not> is_prime_optimized 0 \<and> \<not> is_prime_optimized 1 \<and> is_prime_optimized 2
   \<and> prime_sieve_optimized_main MAX_bound = prime_sieve_baseline_main MAX_bound"
proof -
  have "prime_sieve_optimized_main MAX_bound = prime_sieve_baseline_main MAX_bound"
    by (rule prime_sieve_mains_agree) (simp add: MAX_bound_def)
  moreover have "\<not> is_prime 0" "\<not> is_prime 1" "is_prime 2"
    by (simp_all add: is_prime_def is_prime_loop.simps)
  ultimately show ?thesis by (simp add: is_prime_optimized_eq)
qed

theorem C5_prime_tests_witness:
  "(97::int) < MAX_bound \<and> is_prime_optimized 97 \<and> is_prime 97
   \<and> (91::int) < MAX_bound \<and> \<not> is_prime_optimized 91 \<and> \<not> is_prime 91
   \<and> prime_sieve_baseline_main 30 = (10, 129)
   \<and> prime_sieve_optimized_main 30 = (10, 129)"
proof -
  have a: "(97::int) < MAX_bound" "(91::int) < MAX_bound" by (simp_all add: MAX_bound_def)
  have b: "is_prime_optimized 97" "\<not> is_prime_optimized 91"
    by (simp_all add: is_prime_optimized_def is_prime_optimized_loop.simps
        floor_sqrt_def sqrt_search.simps)
  have c: "prime_sieve_optimized_main 30 = (10, 129)"
    by (simp add: prime_sieve_optimized_main_def prime_scan_optimized.simps tally_def
        is_prime_optimized_def is_prime_optimized_loop.simps floor_sqrt_def sqrt_search.simps)
  have d: "prime_sieve_baseline_main 30 = (10, 129)"
    using prime_sieve_mains_agree [of 30] c by simp
  from C5_prime_tests_and_scans_agree
  have e: "\<And>n. n < MAX_bound \<Longrightarrow> is_prime_optimized n = is_prime n" by blast
  show ?thesis
    using e [OF a(1)] e [OF a(2)] a b c d by simp
qed

section \<open>Results: matrix kernel\<close>

subsection \<open>The baseline kernel\<close>













subsection \<open>The optimized kernel\<close>




















subsection \<open>The two kernels and the exact product\<close>





section \<open>Results: drivers\<close>

text \<open>
  With a table of \<open>MAX_VAL\<close> zeros behind the pointer, \<open>optimized_sort_alloc\<close> is
  \<open>optimized_sort\<close>.
\<close>

lemma optimized_sort_alloc_success:
  "optimized_sort_alloc (Some (replicate (nat MAX_VAL) 0)) arr n = optimized_sort arr n"
  by (simp add: optimized_sort_alloc_def optimized_sort_def deref_def bind_fault_def)

text \<open>
  C8 fails on the code: an allocation that returns the null pointer is not detected.
  The kernel \<open>optimized_sort\<close> uses the table behind a null \<^verbatim>\<open>calloc\<close> result, for
  every array and length; and with a null \<^verbatim>\<open>malloc\<close> result the drivers of the
  baseline sort (\<open>N = 10000\<close>), the baseline search (\<open>TEXT_LEN = 1000000\<close>) and the
  baseline sum (\<open>N = 100000000\<close>) store through it. Each run ends in the fault
  \<open>NullDereference\<close>, not in a distinct outcome of the program.
\<close>

theorem C8_null_allocation_is_used_unchecked:
  "optimized_sort_alloc None arr n = Inl NullDereference
   \<and> bubble_sort_baseline_main 10000 None = Inl NullDereference
   \<and> string_search_baseline_main 1000000 None = Inl NullDereference
   \<and> array_sum_baseline_main recip 100000000 None = Inl NullDereference"
  by (simp add: optimized_sort_alloc_def bubble_sort_baseline_main_def
      string_search_baseline_main_def array_sum_baseline_main_def deref_def bind_fault_def)

end
